theory Spec2Isabelle
  imports Main
begin

section \<open>JavaScript strings\<close>

text \<open>
  A JavaScript string is a sequence of UTF-16 code units. The program handles text outside
  Latin-1 (smart quotes, Chinese messages), so a code unit is a natural number and a string
  is a list of them; \<open>js\<close> embeds an ASCII literal.
\<close>

type_synonym jstring = "nat list"

definition js :: "string \<Rightarrow> jstring" where
  "js s = map of_char s"

text \<open>
  \<open>String.prototype.trim\<close> removes the WhiteSpace and LineTerminator code points of
  ECMAScript from both ends; the class \<open>\s\<close> of a regular expression is the same set.
\<close>

definition isWhiteSpace :: "nat \<Rightarrow> bool" where
  "isWhiteSpace c \<longleftrightarrow>
     c = 9 \<or> c = 10 \<or> c = 11 \<or> c = 12 \<or> c = 13 \<or> c = 32 \<or> c = 160 \<or> c = 5760 \<or>
     (8192 \<le> c \<and> c \<le> 8202) \<or> c = 8232 \<or> c = 8233 \<or> c = 8239 \<or> c = 8287 \<or>
     c = 12288 \<or> c = 65279"

definition trimStart :: "jstring \<Rightarrow> jstring" where
  "trimStart s = dropWhile isWhiteSpace s"

definition trimEnd :: "jstring \<Rightarrow> jstring" where
  "trimEnd s = rev (dropWhile isWhiteSpace (rev s))"

definition trim :: "jstring \<Rightarrow> jstring" where
  "trim s = trimEnd (trimStart s)"

section \<open>Provider configuration: \<open>cleanEnv\<close>\<close>

text \<open>
  \<^verbatim>\<open>value.trim().replace(/^["'L]+|["'R]+$/g, '')\<close>, where \<open>L\<close> stands for the left double
  quotation mark U+201C (8220) and \<open>R\<close> for the right double quotation mark U+201D (8221),
  which the source writes as the characters themselves.

  The first alternative is anchored at the start and can match only at position 0, where it
  takes the longest run of its class. The second alternative is anchored at the end: scanning
  on from the end of the first match, it matches at the first position from which nothing but
  characters of its class remain. Both matches are replaced by the empty string.
\<close>

definition leadingQuote :: "nat \<Rightarrow> bool" where
  "leadingQuote c \<longleftrightarrow> c = 34 \<or> c = 39 \<or> c = 8220"

definition trailingQuote :: "nat \<Rightarrow> bool" where
  "trailingQuote c \<longleftrightarrow> c = 34 \<or> c = 39 \<or> c = 8221"

fun stripTrailingQuotes :: "jstring \<Rightarrow> jstring" where
  "stripTrailingQuotes [] = []"
| "stripTrailingQuotes (c # cs) =
     (if list_all trailingQuote (c # cs) then [] else c # stripTrailingQuotes cs)"

definition stripQuotes :: "jstring \<Rightarrow> jstring" where
  "stripQuotes s = stripTrailingQuotes (dropWhile leadingQuote s)"

text \<open>
  \<open>cleanEnv\<close> takes \<open>string | undefined\<close>; \<open>None\<close> is \<open>undefined\<close>. The guard
  \<^verbatim>\<open>if (!value) return undefined\<close> catches \<open>undefined\<close> and the empty string.
\<close>

definition cleanEnv :: "jstring option \<Rightarrow> jstring option" where
  "cleanEnv v =
     (case v of
        None \<Rightarrow> None
      | Some s \<Rightarrow> if s = [] then None else Some (stripQuotes (trim s)))"

section \<open>JSON values\<close>

text \<open>
  The values that \<open>JSON.parse\<close> produces and the program inspects. An object is the list
  of its properties in insertion order. A number \<open>JNumber m e\<close> is the decimal
  \<open>m * 10 ^ e\<close>, kept exactly and normalised (\<open>m\<close> has no trailing zero, zero is
  \<open>JNumber 0 0\<close>): the rounding of a literal to a binary64 double is not modelled, and
  neither is the enumeration of integer-like keys before the other keys of an object. An absent
  property, JavaScript's \<open>undefined\<close>, is \<open>None\<close> of \<open>json option\<close>.
\<close>

datatype json =
    JNull
  | JBool bool
  | JNumber int int
  | JString jstring
  | JArray "json list"
  | JObject "(jstring \<times> json) list"

datatype jstype = TUndefined | TObject | TBoolean | TNumber | TString

fun typeof :: "json option \<Rightarrow> jstype" where
  "typeof None = TUndefined"
| "typeof (Some JNull) = TObject"
| "typeof (Some (JBool b)) = TBoolean"
| "typeof (Some (JNumber m e)) = TNumber"
| "typeof (Some (JString s)) = TString"
| "typeof (Some (JArray xs)) = TObject"
| "typeof (Some (JObject ms)) = TObject"

fun truthy :: "json option \<Rightarrow> bool" where
  "truthy None = False"
| "truthy (Some JNull) = False"
| "truthy (Some (JBool b)) = b"
| "truthy (Some (JNumber m e)) = (m \<noteq> 0)"
| "truthy (Some (JString s)) = (s \<noteq> [])"
| "truthy (Some (JArray xs)) = True"
| "truthy (Some (JObject ms)) = True"

fun isArray :: "json \<Rightarrow> bool" where
  "isArray (JArray xs) = True"
| "isArray v = False"

fun setProp :: "jstring \<Rightarrow> json \<Rightarrow> (jstring \<times> json) list \<Rightarrow> (jstring \<times> json) list" where
  "setProp k v [] = [(k, v)]"
| "setProp k v (m # ms) = (if fst m = k then (k, v) # ms else m # setProp k v ms)"

section \<open>\<open>JSON.parse\<close>\<close>

text \<open>
  The platform function, after the JSON grammar of ECMA-404 as ECMAScript applies it: a lexer
  from code units to tokens (\<open>tokenize\<close>) and a pushdown automaton over the tokens
  (\<open>step\<close>, \<open>run\<close>). \<open>None\<close> is the \<open>SyntaxError\<close> that \<open>JSON.parse\<close> throws.
  Whitespace is tab, line feed, carriage return and space only; a string may not hold a code unit
  below 32 unescaped; of two properties with one key the later value wins, at the place of the
  earlier.
\<close>

datatype token =
    TLBrace | TRBrace | TLBracket | TRBracket | TColon | TComma | TScalar json

definition isJsonWs :: "nat \<Rightarrow> bool" where
  "isJsonWs c \<longleftrightarrow> c = 9 \<or> c = 10 \<or> c = 13 \<or> c = 32"

definition isDigit :: "nat \<Rightarrow> bool" where
  "isDigit c \<longleftrightarrow> 48 \<le> c \<and> c \<le> 57"

definition hexDigit :: "nat \<Rightarrow> nat option" where
  "hexDigit c =
     (if 48 \<le> c \<and> c \<le> 57 then Some (c - 48)
      else if 97 \<le> c \<and> c \<le> 102 then Some (c - 87)
      else if 65 \<le> c \<and> c \<le> 70 then Some (c - 55)
      else None)"

definition unescape :: "nat \<Rightarrow> nat option" where
  "unescape e =
     (if e = 34 then Some 34
      else if e = 92 then Some 92
      else if e = 47 then Some 47
      else if e = 98 then Some 8
      else if e = 102 then Some 12
      else if e = 110 then Some 10
      else if e = 114 then Some 13
      else if e = 116 then Some 9
      else None)"

definition consUnit :: "nat \<Rightarrow> (jstring \<times> jstring) option \<Rightarrow> (jstring \<times> jstring) option" where
  "consUnit c r = (case r of None \<Rightarrow> None | Some (s, rest) \<Rightarrow> Some (c # s, rest))"

fun lexString :: "jstring \<Rightarrow> (jstring \<times> jstring) option" where
  "lexString [] = None"
| "lexString (c # cs) =
     (if c = 34 then Some ([], cs)
      else if c = 92 then
        (case cs of
           [] \<Rightarrow> None
         | e # es \<Rightarrow>
             if e = 117 then
               (case es of
                  h1 # h2 # h3 # h4 # rest \<Rightarrow>
                    (case (hexDigit h1, hexDigit h2, hexDigit h3, hexDigit h4) of
                       (Some d1, Some d2, Some d3, Some d4) \<Rightarrow>
                         consUnit (((d1 * 16 + d2) * 16 + d3) * 16 + d4) (lexString rest)
                     | _ \<Rightarrow> None)
                | _ \<Rightarrow> None)
             else
               (case unescape e of
                  None \<Rightarrow> None
                | Some u \<Rightarrow> consUnit u (lexString es)))
      else if c < 32 then None
      else consUnit c (lexString cs))"

definition digitsValue :: "jstring \<Rightarrow> nat" where
  "digitsValue ds = foldl (\<lambda>n d. 10 * n + (d - 48)) 0 ds"

function normalise :: "nat \<Rightarrow> int \<Rightarrow> nat \<times> int" where
  "normalise m e =
     (if m = 0 then (0, 0)
      else if m mod 10 = 0 then normalise (m div 10) (e + 1)
      else (m, e))"
  by pat_completeness auto
termination
  by (relation "measure fst") auto

declare normalise.simps [simp del]

definition lexInt :: "jstring \<Rightarrow> (jstring \<times> jstring) option" where
  "lexInt s =
     (case s of
        [] \<Rightarrow> None
      | c # cs \<Rightarrow>
          if c = 48 then Some ([c], cs)
          else if isDigit c then Some (takeWhile isDigit s, dropWhile isDigit s)
          else None)"

definition lexFrac :: "jstring \<Rightarrow> (jstring \<times> jstring) option" where
  "lexFrac s =
     (case s of
        [] \<Rightarrow> Some ([], s)
      | c # cs \<Rightarrow>
          if c = 46 then
            (if takeWhile isDigit cs = [] then None
             else Some (takeWhile isDigit cs, dropWhile isDigit cs))
          else Some ([], s))"

definition lexExp :: "jstring \<Rightarrow> (int \<times> jstring) option" where
  "lexExp s =
     (case s of
        [] \<Rightarrow> Some (0, s)
      | c # cs \<Rightarrow>
          if c = 101 \<or> c = 69 then
            (let neg = (case cs of [] \<Rightarrow> False | d # ds \<Rightarrow> d = 45);
                 ds = (case cs of [] \<Rightarrow> [] | d # ds \<Rightarrow> if d = 45 \<or> d = 43 then ds else cs)
             in if takeWhile isDigit ds = [] then None
                else Some ((if neg then - int (digitsValue (takeWhile isDigit ds))
                            else int (digitsValue (takeWhile isDigit ds))),
                           dropWhile isDigit ds))
          else Some (0, s))"

definition lexNumber :: "jstring \<Rightarrow> (json \<times> jstring) option" where
  "lexNumber s =
     (let neg = (case s of [] \<Rightarrow> False | c # cs \<Rightarrow> c = 45);
          s1 = (if neg then tl s else s)
      in case lexInt s1 of
           None \<Rightarrow> None
         | Some (ip, s2) \<Rightarrow>
             (case lexFrac s2 of
                None \<Rightarrow> None
              | Some (fp, s3) \<Rightarrow>
                  (case lexExp s3 of
                     None \<Rightarrow> None
                   | Some (ex, s4) \<Rightarrow>
                       (case normalise (digitsValue (ip @ fp)) (ex - int (length fp)) of
                          (m, e) \<Rightarrow>
                            Some (JNumber (if neg then - int m else int m) e, s4)))))"

definition startsWith :: "jstring \<Rightarrow> jstring \<Rightarrow> bool" where
  "startsWith s p \<longleftrightarrow> take (length p) s = p"

definition consToken :: "token \<Rightarrow> token list option \<Rightarrow> token list option" where
  "consToken t r = map_option ((#) t) r"

lemma lexString_length: "lexString s = Some (str, rest) \<Longrightarrow> length rest < length s"
proof (induction s arbitrary: str rest rule: lexString.induct)
  case 1
  then show ?case by simp
next
  case (2 c cs)
  show ?case
    using "2.prems" "2.IH"
    apply (simp split: if_splits list.splits option.splits prod.splits add: consUnit_def)
      apply fastforce+
    done
qed

lemma lexInt_length: "lexInt s = Some (ds, rest) \<Longrightarrow> length rest < length s"
proof -
  assume a: "lexInt s = Some (ds, rest)"
  then obtain c cs where s: "s = c # cs" by (cases s) (auto simp: lexInt_def)
  show ?thesis
  proof (cases "c = 48")
    case True
    with a s show ?thesis by (simp add: lexInt_def)
  next
    case False
    with a s have d: "isDigit c" and r: "rest = dropWhile isDigit cs"
      by (auto simp: lexInt_def split: if_splits)
    have "length (dropWhile isDigit cs) \<le> length cs" by (rule length_dropWhile_le)
    with r s show ?thesis by simp
  qed
qed

lemma lexFrac_length: "lexFrac s = Some (ds, rest) \<Longrightarrow> length rest \<le> length s"
proof -
  assume a: "lexFrac s = Some (ds, rest)"
  show ?thesis
  proof (cases s)
    case Nil
    with a show ?thesis by (simp add: lexFrac_def)
  next
    case (Cons c cs)
    have "length (dropWhile isDigit cs) \<le> length cs" by (rule length_dropWhile_le)
    with a Cons show ?thesis by (auto simp: lexFrac_def split: if_splits)
  qed
qed

lemma lexExp_length: "lexExp s = Some (ex, rest) \<Longrightarrow> length rest \<le> length s"
proof -
  assume a: "lexExp s = Some (ex, rest)"
  show ?thesis
  proof (cases s)
    case Nil
    with a show ?thesis by (simp add: lexExp_def)
  next
    case (Cons c cs)
    show ?thesis
    proof (cases "c = 101 \<or> c = 69")
      case False
      with a Cons show ?thesis by (simp add: lexExp_def)
    next
      case True
      define ds where "ds = (case cs of [] \<Rightarrow> [] | d # ds \<Rightarrow> if d = 45 \<or> d = 43 then ds else cs)"
      have l1: "length ds \<le> length cs" by (auto simp: ds_def split: list.splits)
      have l2: "length (dropWhile isDigit ds) \<le> length ds" by (rule length_dropWhile_le)
      from a Cons True have "rest = dropWhile isDigit ds"
        by (simp add: lexExp_def Let_def ds_def split: if_splits)
      with l1 l2 Cons show ?thesis by simp
    qed
  qed
qed

lemma lexNumber_length: "lexNumber s = Some (v, rest) \<Longrightarrow> length rest < length s"
proof -
  assume a: "lexNumber s = Some (v, rest)"
  define s1 where "s1 = (if (case s of [] \<Rightarrow> False | c # cs \<Rightarrow> c = 45) then tl s else s)"
  have l0: "length s1 \<le> length s" by (simp add: s1_def)
  from a obtain ip s2 where i: "lexInt s1 = Some (ip, s2)"
    by (auto simp: lexNumber_def Let_def s1_def split: option.splits)
  from a i obtain fp s3 where f: "lexFrac s2 = Some (fp, s3)"
    by (auto simp: lexNumber_def Let_def s1_def split: option.splits)
  from a i f obtain ex s4 where e: "lexExp s3 = Some (ex, s4)"
    by (auto simp: lexNumber_def Let_def s1_def split: option.splits)
  from a i f e have "rest = s4"
    by (auto simp: lexNumber_def Let_def s1_def split: option.splits prod.splits)
  with lexInt_length [OF i] lexFrac_length [OF f] lexExp_length [OF e] l0
  show ?thesis by simp
qed

function tokenize :: "jstring \<Rightarrow> token list option" where
  "tokenize [] = Some []"
| "tokenize (c # cs) =
     (if isJsonWs c then tokenize cs
      else if c = 123 then consToken TLBrace (tokenize cs)
      else if c = 125 then consToken TRBrace (tokenize cs)
      else if c = 91 then consToken TLBracket (tokenize cs)
      else if c = 93 then consToken TRBracket (tokenize cs)
      else if c = 58 then consToken TColon (tokenize cs)
      else if c = 44 then consToken TComma (tokenize cs)
      else if c = 34 then
        (case lexString cs of
           None \<Rightarrow> None
         | Some (s, rest) \<Rightarrow> consToken (TScalar (JString s)) (tokenize rest))
      else if c = 45 \<or> isDigit c then
        (case lexNumber (c # cs) of
           None \<Rightarrow> None
         | Some (n, rest) \<Rightarrow> consToken (TScalar n) (tokenize rest))
      else if startsWith (c # cs) (js ''true'') then
        consToken (TScalar (JBool True)) (tokenize (drop 3 cs))
      else if startsWith (c # cs) (js ''false'') then
        consToken (TScalar (JBool False)) (tokenize (drop 4 cs))
      else if startsWith (c # cs) (js ''null'') then
        consToken (TScalar JNull) (tokenize (drop 3 cs))
      else None)"
  by pat_completeness auto
termination
  by (relation "measure length") (auto dest: lexString_length lexNumber_length)

declare tokenize.simps [simp del]


datatype frame = ArrFrame "json list" | ObjFrame "(jstring \<times> json) list" jstring

datatype pstate =
    PValue "frame list"
  | PFirstElem "frame list"
  | PFirstKey "frame list"
  | PKey "(jstring \<times> json) list" "frame list"
  | PColon "(jstring \<times> json) list" jstring "frame list"
  | PAfter json "frame list"

fun startValue :: "frame list \<Rightarrow> token \<Rightarrow> pstate option" where
  "startValue stk (TScalar v) = Some (PAfter v stk)"
| "startValue stk TLBracket = Some (PFirstElem stk)"
| "startValue stk TLBrace = Some (PFirstKey stk)"
| "startValue stk t = None"

fun step :: "pstate \<Rightarrow> token \<Rightarrow> pstate option" where
  "step (PValue stk) t = startValue stk t"
| "step (PFirstElem stk) t =
     (if t = TRBracket then Some (PAfter (JArray []) stk)
      else startValue (ArrFrame [] # stk) t)"
| "step (PFirstKey stk) t =
     (case t of
        TRBrace \<Rightarrow> Some (PAfter (JObject []) stk)
      | TScalar (JString k) \<Rightarrow> Some (PColon [] k stk)
      | _ \<Rightarrow> None)"
| "step (PKey ms stk) t =
     (case t of
        TScalar (JString k) \<Rightarrow> Some (PColon ms k stk)
      | _ \<Rightarrow> None)"
| "step (PColon ms k stk) t =
     (if t = TColon then Some (PValue (ObjFrame ms k # stk)) else None)"
| "step (PAfter v []) t = None"
| "step (PAfter v (ArrFrame es # stk)) t =
     (case t of
        TComma \<Rightarrow> Some (PValue (ArrFrame (es @ [v]) # stk))
      | TRBracket \<Rightarrow> Some (PAfter (JArray (es @ [v])) stk)
      | _ \<Rightarrow> None)"
| "step (PAfter v (ObjFrame ms k # stk)) t =
     (case t of
        TComma \<Rightarrow> Some (PKey (setProp k v ms) stk)
      | TRBrace \<Rightarrow> Some (PAfter (JObject (setProp k v ms)) stk)
      | _ \<Rightarrow> None)"

fun run :: "pstate \<Rightarrow> token list \<Rightarrow> json option" where
  "run (PAfter v []) [] = Some v"
| "run st [] = None"
| "run st (t # ts) = (case step st t of None \<Rightarrow> None | Some st' \<Rightarrow> run st' ts)"

definition JSON_parse :: "jstring \<Rightarrow> json option" where
  "JSON_parse s = (case tokenize s of None \<Rightarrow> None | Some ts \<Rightarrow> run (PValue []) ts)"

section \<open>\<open>JSON.stringify\<close>\<close>

text \<open>
  The platform function on one argument, for the values of type \<open>json\<close>: strings quoted by
  \<open>QuoteJSONString\<close> (short escapes, four-digit hexadecimal escapes for the other code
  units below 32 and for lone surrogates), numbers printed by \<open>Number::toString\<close> (plain digits for exponents of
  the leading digit from \<open>-7\<close> to \<open>20\<close>, scientific notation beyond), no whitespace
  between tokens.
\<close>

definition hexChar :: "nat \<Rightarrow> nat" where
  "hexChar d = (if d < 10 then 48 + d else 87 + d)"

definition hex4 :: "nat \<Rightarrow> jstring" where
  "hex4 c = [hexChar (c div 4096 mod 16), hexChar (c div 256 mod 16),
             hexChar (c div 16 mod 16), hexChar (c mod 16)]"

definition isHighSurrogate :: "nat \<Rightarrow> bool" where
  "isHighSurrogate c \<longleftrightarrow> 55296 \<le> c \<and> c \<le> 56319"

definition isLowSurrogate :: "nat \<Rightarrow> bool" where
  "isLowSurrogate c \<longleftrightarrow> 56320 \<le> c \<and> c \<le> 57343"

definition quoteUnit :: "nat \<Rightarrow> jstring" where
  "quoteUnit c =
     (if c = 8 then [92, 98]
      else if c = 9 then [92, 116]
      else if c = 10 then [92, 110]
      else if c = 12 then [92, 102]
      else if c = 13 then [92, 114]
      else if c = 34 then [92, 34]
      else if c = 92 then [92, 92]
      else if c < 32 \<or> isHighSurrogate c \<or> isLowSurrogate c then [92, 117] @ hex4 c
      else [c])"

fun quoteUnits :: "jstring \<Rightarrow> jstring" where
  "quoteUnits [] = []"
| "quoteUnits [c] = quoteUnit c"
| "quoteUnits (c # d # cs) =
     (if isHighSurrogate c \<and> isLowSurrogate d then c # d # quoteUnits cs
      else quoteUnit c @ quoteUnits (d # cs))"

definition quoteJSONString :: "jstring \<Rightarrow> jstring" where
  "quoteJSONString s = [34] @ quoteUnits s @ [34]"

fun digits :: "nat \<Rightarrow> jstring" where
  "digits n = (if n < 10 then [48 + n] else digits (n div 10) @ [48 + n mod 10])"

declare digits.simps [simp del]

definition numberToString :: "int \<Rightarrow> int \<Rightarrow> jstring" where
  "numberToString m e =
     (if m = 0 then [48]
      else
        (let ds = digits (nat \<bar>m\<bar>);
             k = int (length ds);
             n = k + e;
             body =
               (if k \<le> n \<and> n \<le> 21 then ds @ replicate (nat (n - k)) 48
                else if 0 < n \<and> n \<le> 21 then take (nat n) ds @ [46] @ drop (nat n) ds
                else if - 6 < n \<and> n \<le> 0 then [48, 46] @ replicate (nat (- n)) 48 @ ds
                else
                  (if k = 1 then ds else take 1 ds @ [46] @ drop 1 ds) @ [101] @
                  [if 0 \<le> n - 1 then 43 else 45] @ digits (nat \<bar>n - 1\<bar>))
         in (if m < 0 then [45] else []) @ body))"

fun joinWith :: "jstring \<Rightarrow> jstring list \<Rightarrow> jstring" where
  "joinWith sep [] = []"
| "joinWith sep [x] = x"
| "joinWith sep (x # y # ys) = x @ sep @ joinWith sep (y # ys)"

fun JSON_stringify :: "json \<Rightarrow> jstring" where
  "JSON_stringify JNull = js ''null''"
| "JSON_stringify (JBool b) = (if b then js ''true'' else js ''false'')"
| "JSON_stringify (JNumber m e) = numberToString m e"
| "JSON_stringify (JString s) = quoteJSONString s"
| "JSON_stringify (JArray xs) = [91] @ joinWith [44] (map JSON_stringify xs) @ [93]"
| "JSON_stringify (JObject ms) =
     [123] @ joinWith [44] (map (\<lambda>m. quoteJSONString (fst m) @ [58] @ JSON_stringify (snd m)) ms) @ [125]"

section \<open>Structured-output parser: \<open>parseJsonResponse\<close>\<close>

text \<open>
  \<^verbatim>\<open>str.replace(/,\s*([}\]])/g, '$1')\<close>: scanning from the left, a comma followed by a
  (longest) run of whitespace and then a closing brace or bracket is replaced by that closing
  character alone, and the scan goes on behind it. A comma that is followed by anything else
  after the whitespace stays.
\<close>

definition isCloser :: "nat \<Rightarrow> bool" where
  "isCloser c \<longleftrightarrow> c = 125 \<or> c = 93"

function stripTrailingCommas :: "jstring \<Rightarrow> jstring" where
  "stripTrailingCommas [] = []"
| "stripTrailingCommas (c # cs) =
     (if c = 44 then
        (case dropWhile isWhiteSpace cs of
           [] \<Rightarrow> c # stripTrailingCommas cs
         | d # ds \<Rightarrow>
             if isCloser d then d # stripTrailingCommas ds
             else c # stripTrailingCommas cs)
      else c # stripTrailingCommas cs)"
  by pat_completeness auto
termination
proof (relation "measure length")
  show "wf (measure length)" by simp
next
  fix c :: nat and cs :: jstring
  show "(cs, c # cs) \<in> measure length" by simp
next
  fix c :: nat and cs d ds
  assume "dropWhile isWhiteSpace cs = d # ds"
  then have "length (d # ds) \<le> length cs"
    by (metis length_dropWhile_le)
  then show "(ds, c # cs) \<in> measure length" by simp
qed simp_all

text \<open>
  \<open>tryParse\<close> of the source: the text with trailing commas removed is parsed first;
  only when that throws is the text itself parsed; \<open>null\<close> when both throw.
\<close>

definition tryParse :: "jstring \<Rightarrow> json" where
  "tryParse str =
     (case JSON_parse (stripTrailingCommas str) of
        Some result \<Rightarrow> result
      | None \<Rightarrow>
          (case JSON_parse str of
             Some result \<Rightarrow> result
           | None \<Rightarrow> JNull))"

text \<open>\<open>s.indexOf(p)\<close> and \<open>s.lastIndexOf(p)\<close>, with \<open>-1\<close> when there is no occurrence.\<close>

fun indexOf :: "jstring \<Rightarrow> jstring \<Rightarrow> int" where
  "indexOf [] p = (if p = [] then 0 else - 1)"
| "indexOf (c # cs) p =
     (if startsWith (c # cs) p then 0
      else (let i = indexOf cs p in if i = - 1 then - 1 else i + 1))"

fun lastIndexOf :: "jstring \<Rightarrow> jstring \<Rightarrow> int" where
  "lastIndexOf [] p = (if p = [] then 0 else - 1)"
| "lastIndexOf (c # cs) p =
     (let i = lastIndexOf cs p in
      if i \<noteq> - 1 then i + 1
      else if startsWith (c # cs) p then 0
      else - 1)"

definition str_includes :: "jstring \<Rightarrow> jstring \<Rightarrow> bool" where
  "str_includes s p \<longleftrightarrow> indexOf s p \<noteq> - 1"

definition substring :: "jstring \<Rightarrow> int \<Rightarrow> int \<Rightarrow> jstring" where
  "substring s a b = take (nat b - nat a) (drop (nat a) s)"

definition fence :: jstring where
  "fence = [96, 96, 96]"

definition markdownMatch :: "jstring \<Rightarrow> jstring option" where
  "markdownMatch s =
     (let p = indexOf s fence in
      if p = - 1 then None
      else
        (let r0 = drop (nat p + 3) s;
             r1 = (if startsWith r0 (js ''json'') then drop 4 r0 else r0);
             r = dropWhile isWhiteSpace r1;
             j = indexOf r fence
         in if j = - 1 then None else Some (trimEnd (take (nat j) r))))"

text \<open>
  \<open>toLowerCase\<close> on the letters \<open>A\<close> to \<open>Z\<close>; the case mappings of Unicode outside
  ASCII are not modelled. The three phrases searched for in the lower-cased text are ASCII or
  Chinese, and Chinese characters have no case.
\<close>

definition toLowerCase :: "jstring \<Rightarrow> jstring" where
  "toLowerCase s = map (\<lambda>c. if 65 \<le> c \<and> c \<le> 90 then c + 32 else c) s"

text \<open>
  The result objects \<open>{data, error?, rawResponse?}\<close> of \<open>parseJsonResponse\<close> and
  \<open>{issues, error?, rawResponse?}\<close> of \<open>parseAuditResponse\<close> share their two optional
  fields; \<open>None\<close> is an absent field.
\<close>

record Outcome =
  error :: "jstring option"
  rawResponse :: "jstring option"

record ParseResult = Outcome +
  data :: json

definition parseErrorMessage :: jstring where
  "parseErrorMessage =
     [26410, 33021, 23558, 27169, 22411, 21709, 24212, 35299, 26512, 20026, 26377, 25928,
      30340, 74, 83, 79, 78, 12290]"

definition noIssuesZh1 :: jstring where
  "noIssuesZh1 = [27809, 26377, 21457, 29616]"

definition noIssuesZh2 :: jstring where
  "noIssuesZh2 = [26410, 21457, 29616]"

definition structuralParse :: "jstring \<Rightarrow> json" where
  "structuralParse jsonString =
     (let parsedData1 = tryParse jsonString;
          parsedData2 =
            (if \<not> truthy (Some parsedData1) then
               (case markdownMatch jsonString of
                  None \<Rightarrow> parsedData1
                | Some interior \<Rightarrow>
                    if interior \<noteq> [] then tryParse (trim interior) else parsedData1)
             else parsedData1)
      in if \<not> truthy (Some parsedData2) then
           (let firstBrace = indexOf jsonString [123];
                lastBrace = lastIndexOf jsonString [125];
                firstBracket = indexOf jsonString [91];
                lastBracket = lastIndexOf jsonString [93];
                (startIndex, endIndex) =
                  (if firstBracket \<noteq> - 1 \<and> lastBracket > firstBracket
                   then (firstBracket, lastBracket)
                   else if firstBrace \<noteq> - 1 \<and> lastBrace > firstBrace
                   then (firstBrace, lastBrace)
                   else (- 1, - 1))
            in if startIndex \<noteq> - 1
               then tryParse (substring jsonString startIndex (endIndex + 1))
               else parsedData2)
         else parsedData2)"

definition parseJsonResponse :: "jstring \<Rightarrow> ParseResult" where
  "parseJsonResponse responseText =
     (let parsedData = structuralParse (trim responseText) in
      if parsedData = JNull then
        (let lowercasedResponse = toLowerCase responseText in
         if isArray (JArray []) \<and>
            (str_includes lowercasedResponse (js ''no issues found'') \<or>
             str_includes lowercasedResponse noIssuesZh1 \<or>
             str_includes lowercasedResponse noIssuesZh2)
         then \<lparr>error = None, rawResponse = None, data = JArray []\<rparr>
         else \<lparr>error = Some parseErrorMessage, rawResponse = Some responseText, data = JNull\<rparr>)
      else \<lparr>error = None, rawResponse = None, data = parsedData\<rparr>)"

section \<open>JavaScript exceptions and property reads\<close>

text \<open>
  A thrown value is an \<open>Error\<close> object: its class (only \<open>TypeError\<close> is ever tested, by
  \<open>instanceof\<close>) and its message. A function that can throw returns \<open>jsError + 'a\<close>.
\<close>

datatype jsError = Error jstring | TypeError jstring | SyntaxError jstring

fun message :: "jsError \<Rightarrow> jstring" where
  "message (Error m) = m"
| "message (TypeError m) = m"
| "message (SyntaxError m) = m"

fun isTypeError :: "jsError \<Rightarrow> bool" where
  "isTypeError (TypeError m) = True"
| "isTypeError e = False"

definition bindE :: "'e + 'a \<Rightarrow> ('a \<Rightarrow> 'e + 'b) \<Rightarrow> 'e + 'b" where
  "bindE m f = (case m of Inl e \<Rightarrow> Inl e | Inr x \<Rightarrow> f x)"

text \<open>
  The property read \<open>v.k\<close>, for the property names this program reads (none of them is
  defined on a prototype): it throws a \<open>TypeError\<close> on \<open>null\<close> and \<open>undefined\<close>, gives
  the own property of an object, and \<open>undefined\<close> (\<open>None\<close>) on every other value. The
  message is the engine's and is never inspected.
\<close>

definition cannotRead :: "jstring \<Rightarrow> jsError" where
  "cannotRead k = TypeError (js ''Cannot read properties of null (reading '' @ [39] @ k @ [39, 41])"

fun getProp :: "json option \<Rightarrow> jstring \<Rightarrow> jsError + json option" where
  "getProp None k = Inl (cannotRead k)"
| "getProp (Some JNull) k = Inl (cannotRead k)"
| "getProp (Some (JObject ms)) k = Inr (map_of ms k)"
| "getProp (Some v) k = Inr None"

text \<open>
  The operator \<open>k in v\<close>, which throws a \<open>TypeError\<close> when \<open>v\<close> is not an object
  (\<open>null\<close> included); an array has none of the names this program asks for.
\<close>

fun hasProp :: "jstring \<Rightarrow> json \<Rightarrow> jsError + bool" where
  "hasProp k (JObject ms) = Inr (k \<in> fst ` set ms)"
| "hasProp k (JArray xs) = Inr False"
| "hasProp k v = Inl (TypeError (js ''Cannot use in operator''))"

section \<open>Audit responses: \<open>parseAuditResponse\<close>\<close>

text \<open>
  \<open>AuditIssue\<close> is declared with four string fields, but the reconstruction casts
  (\<open>as AuditIssue\<close>) and can store whatever value \<open>problematicText\<close> held, so that field
  is a JSON value here.
\<close>

record AuditIssue =
  problematicText :: json
  suggestion :: jstring
  checklistItem :: jstring
  explanation :: jstring

record AuditResult = Outcome +
  issues :: "AuditIssue list"

definition unspecifiedText :: jstring where
  "unspecifiedText =
     [40, 26410, 25351, 23450, 25991, 26412, 41]"

definition generalRule :: jstring where
  "generalRule =
     [36890, 29992, 35268, 21017]"

definition noExplanation :: jstring where
  "noExplanation =
     [26080, 35814, 32454, 35828, 26126]"

definition unexpectedFormatMessage :: jstring where
  "unexpectedFormatMessage =
     [27169, 22411, 36820, 22238, 20102, 24847, 22806, 30340, 32, 74, 83, 79, 78, 32, 26684,
      24335, 32, 40, 26082, 19981, 26159, 25968, 32452, 65292, 20063, 19981, 26159, 21253,
      21547, 32, 39, 105, 115, 115, 117, 101, 115, 39, 32, 30340, 23545, 35937, 65292, 20063,
      19981, 26159, 21333, 20010, 38382, 39064, 23545, 35937, 41, 12290]"

text \<open>\<^verbatim>\<open>typeof x === 'string' ? x : d\<close>\<close>

fun stringOr :: "json option \<Rightarrow> jstring \<Rightarrow> jstring" where
  "stringOr (Some (JString s)) d = s"
| "stringOr x d = d"

text \<open>
  The callback of \<open>issuesArray.map\<close>; \<open>None\<close> is its \<open>null\<close>. The five properties are
  read once here, where the source reads each at its uses; a read throws only on \<open>null\<close> or
  \<open>undefined\<close>, whatever the name.
\<close>

definition rebuildIssue :: "json \<Rightarrow> jsError + AuditIssue option" where
  "rebuildIssue issue =
     (if \<not> truthy (Some issue) \<or> typeof (Some issue) \<noteq> TObject then Inr None
      else
        bindE (getProp (Some issue) (js ''problematicText'')) (\<lambda>pt.
        bindE (getProp (Some issue) (js ''suggestion'')) (\<lambda>sg.
        bindE (getProp (Some issue) (js ''checklistItem'')) (\<lambda>ci.
        bindE (getProp (Some issue) (js ''explanation'')) (\<lambda>ex.
        bindE (getProp (Some issue) (js ''reason'')) (\<lambda>rs.
          if \<not> truthy pt \<or> typeof pt \<noteq> TString then
            (if (truthy sg \<and> typeof sg = TString) \<or> (truthy ex \<and> typeof ex = TString) then
               Inr (Some \<lparr>problematicText = (if truthy pt then the pt else JString unspecifiedText),
                          suggestion = stringOr sg [],
                          checklistItem = stringOr ci generalRule,
                          explanation = stringOr ex (stringOr rs noExplanation)\<rparr>)
             else Inr None)
          else
            Inr (Some \<lparr>problematicText = the pt,
                       suggestion = stringOr sg [],
                       checklistItem = stringOr ci generalRule,
                       explanation = stringOr ex (stringOr rs noExplanation)\<rparr>)))))))"

text \<open>\<open>xs.map(f)\<close> for a callback that can throw: the first throw ends the loop.\<close>

fun mapE :: "('a \<Rightarrow> 'e + 'b) \<Rightarrow> 'a list \<Rightarrow> 'e + 'b list" where
  "mapE f [] = Inr []"
| "mapE f (x # xs) = bindE (f x) (\<lambda>y. bindE (mapE f xs) (\<lambda>ys. Inr (y # ys)))"

text \<open>\<^verbatim>\<open>issuesArray.map(...).filter(issue => issue !== null)\<close>\<close>

definition validIssues :: "json list \<Rightarrow> jsError + AuditIssue list" where
  "validIssues issuesArray =
     bindE (mapE rebuildIssue issuesArray) (\<lambda>rebuilt. Inr (List.map_filter id rebuilt))"

text \<open>
  The shape test of \<open>parseAuditResponse\<close>: the array itself, the array under \<open>issues\<close>, or
  the single object wrapped in a list; \<open>None\<close> is the branch that reports an unexpected
  format. The conjunctions short-circuit as in the source, so \<open>in\<close> is applied only behind
  the \<open>typeof\<close> and \<open>null\<close> tests.
\<close>

definition issuesArrayOf :: "json \<Rightarrow> jsError + json list option" where
  "issuesArrayOf d =
     (case d of
        JArray xs \<Rightarrow> Inr (Some xs)
      | _ \<Rightarrow>
          if typeof (Some d) = TObject \<and> d \<noteq> JNull then
            bindE (hasProp (js ''issues'') d) (\<lambda>hasIssues.
            bindE (if hasIssues then getProp (Some d) (js ''issues'') else Inr None) (\<lambda>iss.
              case iss of
                Some (JArray xs) \<Rightarrow> Inr (Some xs)
              | _ \<Rightarrow>
                  bindE (hasProp (js ''problematicText'') d) (\<lambda>hasText.
                  bindE (if hasText then hasProp (js ''suggestion'') d else Inr False) (\<lambda>hasBoth.
                    Inr (if hasBoth then Some [d] else None)))))
          else Inr None)"

definition parseAuditResponse :: "jstring \<Rightarrow> jsError + AuditResult" where
  "parseAuditResponse responseText =
     (let r = parseJsonResponse responseText in
      if \<not> truthy (Some (data r)) then
        Inr \<lparr>error = error r, rawResponse = rawResponse r, issues = []\<rparr>
      else
        bindE (issuesArrayOf (data r)) (\<lambda>shape.
          case shape of
            None \<Rightarrow>
              Inr \<lparr>error = Some unexpectedFormatMessage, rawResponse = Some responseText,
                   issues = []\<rparr>
          | Some issuesArray \<Rightarrow>
              bindE (validIssues issuesArray) (\<lambda>valid.
                Inr \<lparr>error = None, rawResponse = None, issues = valid\<rparr>)))"

section \<open>Audit fan-out: \<open>handleAuditAll\<close>\<close>

datatype ModelProvider = gemini | openai | deepseek | ali | depOCR | doubao

definition allModels :: "ModelProvider list" where
  "allModels = [gemini, openai, deepseek, ali, depOCR, doubao]"

type_synonym AuditResults = "ModelProvider \<rightharpoonup> AuditResult"

text \<open>
  One result of \<open>Promise.allSettled\<close> is the settled promise of one \<open>callGenerativeAi\<close>:
  \<open>Inl\<close> the reason when rejected, \<open>Inr\<close> the value when fulfilled. The source gives that
  value no type: in frontend mode it is \<open>result.choices[0].message.content\<close> of the
  provider's reply, or \<open>response.text\<close> of the SDK, and so any JSON value, \<open>null\<close> or
  \<open>undefined\<close> (\<open>None\<close>) as well as a string.

  \<open>parseAuditResponse\<close> hands the value to \<open>parseJsonResponse\<close>, whose first statement is
  \<open>responseText.trim()\<close>. On a value that is not a string this throws the \<open>TypeError\<close> of
  the engine: a property read on \<open>undefined\<close> or \<open>null\<close>, or the call of a method that does
  not exist.
\<close>

fun trimTypeError :: "json option \<Rightarrow> jsError" where
  "trimTypeError None =
     TypeError (js ''Cannot read properties of undefined (reading '' @ [39] @ js ''trim'' @ [39, 41])"
| "trimTypeError (Some JNull) =
     TypeError (js ''Cannot read properties of null (reading '' @ [39] @ js ''trim'' @ [39, 41])"
| "trimTypeError (Some v) = TypeError (js ''responseText.trim is not a function'')"

text \<open>The body of the \<open>forEach\<close> callback:\<close>

definition auditEntry :: "jsError + json option \<Rightarrow> jsError + AuditResult" where
  "auditEntry result =
     (case result of
        Inr v \<Rightarrow>
          (case v of
             Some (JString responseText) \<Rightarrow>
               bindE (parseAuditResponse responseText) (\<lambda>r.
                 Inr \<lparr>error = error r, rawResponse = rawResponse r, issues = issues r\<rparr>)
           | _ \<Rightarrow> Inl (trimTypeError v))
      | Inl reason \<Rightarrow>
          Inr \<lparr>error = Some (message reason), rawResponse = None, issues = []\<rparr>)"

text \<open>
  \<open>results.forEach((result, index) => ...)\<close> storing into \<open>newAuditResults\<close>; the results
  stand in the order of \<open>allModels\<close>, so \<open>allModels[index]\<close> is the model zipped with
  the result. Nothing catches a throw of the callback: it ends the loop and the handler, and
  \<open>setAuditResults\<close> is not reached.
\<close>

fun collectResults ::
    "AuditResults \<Rightarrow> (ModelProvider \<times> (jsError + json option)) list \<Rightarrow> jsError + AuditResults" where
  "collectResults newAuditResults [] = Inr newAuditResults"
| "collectResults newAuditResults ((model, result) # rest) =
     bindE (auditEntry result) (\<lambda>entry.
       collectResults (newAuditResults(model \<mapsto> entry)) rest)"

text \<open>
  \<open>handleAuditAll\<close>: \<open>call model\<close> is how the promise of \<open>callGenerativeAi(model, ...)\<close>
  settles; the value is the map handed to \<open>setAuditResults\<close>, or the error with which the
  handler's promise rejects.
\<close>

definition handleAuditAll :: "(ModelProvider \<Rightarrow> jsError + json option) \<Rightarrow> jsError + AuditResults" where
  "handleAuditAll call = collectResults Map.empty (zip allModels (map call allModels))"
section \<open>Error classification: \<open>getBackendErrorMessage\<close>\<close>

text \<open>
  The page the program runs on: \<open>window.location.protocol\<close> (\<open>None\<close> where there is no
  \<open>window\<close>), and the two build-time values that \<open>API_BASE_URL\<close> is computed from.
\<close>

record Page =
  protocol :: "jstring option"
  isProduction :: bool
  VITE_API_BASE_URL :: "jstring option"

text \<open>\<^verbatim>\<open>PROD ? `${cleanEnv(VITE_API_BASE_URL) || ''}/api` : '/proxy-api'\<close>\<close>

definition API_BASE_URL :: "Page \<Rightarrow> jstring" where
  "API_BASE_URL page =
     (if isProduction page
      then (case cleanEnv (VITE_API_BASE_URL page) of None \<Rightarrow> [] | Some u \<Rightarrow> u) @ js ''/api''
      else js ''/proxy-api'')"

definition mixedContentPrefix :: jstring where
  "mixedContentPrefix =
     [12304, 23433, 20840, 38480, 21046, 35686, 21578, 12305, 10, 10, 71, 105, 116, 72, 117,
      98, 32, 80, 97, 103, 101, 115, 32, 40, 72, 84, 84, 80, 83, 41, 32, 26080, 27861, 36830,
      25509, 21040, 19981, 23433, 20840, 30340, 32, 72, 84, 84, 80, 32, 21518, 31471, 32, 40]"

definition mixedContentSuffix :: jstring where
  "mixedContentSuffix =
     [41, 12290, 10, 27983, 35272, 22120, 20986, 20110, 23433, 20840, 21407, 22240, 25318,
      25130, 20102, 35831, 27714, 32, 40, 77, 105, 120, 101, 100, 32, 67, 111, 110, 116, 101,
      110, 116, 41, 12290, 10, 10, 35299, 20915, 26041, 26696, 65306, 10, 49, 46, 32, 35831,
      23558, 24744, 30340, 21518, 31471, 26381, 21153, 21319, 32423, 20026, 32, 72, 84, 84,
      80, 83, 12290, 10, 50, 46, 32, 25110, 32773, 20999, 25442, 21040, 8220, 21069, 31471,
      30452, 36830, 8221, 27169, 24335, 20351, 29992, 22522, 30784, 32, 65, 73, 32, 21151,
      33021, 12290, 10, 51, 46, 32, 25110, 32773, 22312, 26412, 22320, 29615, 22659, 36816,
      34892, 21069, 31471, 12290]"

definition fetchFailedPrefix :: jstring where
  "fetchFailedPrefix =
     [32593, 32476, 35831, 27714, 22833, 36133, 12290, 26080, 27861, 36830, 25509, 21040,
      21518, 31471, 26381, 21153, 32, 40]"

definition fetchFailedSuffix :: jstring where
  "fetchFailedSuffix =
     [41, 12290, 10, 10, 21487, 33021, 21407, 22240, 65306, 10, 49, 46, 32, 21518, 31471,
      26381, 21153, 26410, 21551, 21160, 12290, 10, 50, 46, 32, 36328, 22495, 32, 40, 67, 79,
      82, 83, 41, 32, 37197, 32622, 26410, 20801, 35768, 24403, 21069, 22495, 21517, 12290,
      10, 51, 46, 32, 32593, 32476, 36830, 25509, 38382, 39064, 12290]"

definition requestFailedPrefix :: jstring where
  "requestFailedPrefix =
     [21518, 31471, 35831, 27714, 20986, 38169, 32, 40]"

definition requestFailedSuffix :: jstring where
  "requestFailedSuffix =
     [41]"

definition getBackendErrorMessage :: "Page \<Rightarrow> jsError \<Rightarrow> jstring \<Rightarrow> jstring" where
  "getBackendErrorMessage page err url =
     (if protocol page = Some (js ''https:'') \<and> startsWith url (js ''http:'')
      then mixedContentPrefix @ url @ mixedContentSuffix
      else if isTypeError err \<and> str_includes (toLowerCase (message err)) (js ''failed to fetch'')
      then fetchFailedPrefix @ url @ fetchFailedSuffix
      else if message err \<noteq> [] then message err
      else requestFailedPrefix @ url @ requestFailedSuffix)"

section \<open>Backend invocation with retries: \<open>callGenerativeAi\<close>\<close>

text \<open>
  What one \<open>fetch\<close> of the backend gives: a rejection (\<open>Inl\<close>, a transport error), or a
  response with its status and with what reading its body as text gives.
\<close>

record Response =
  status :: nat
  statusText :: jstring
  text_body :: "jsError + jstring"

definition ok :: "'a Response_scheme \<Rightarrow> bool" where
  "ok r \<longleftrightarrow> 200 \<le> status r \<and> status r \<le> 299"

definition proxyFailedPrefix :: jstring where
  "proxyFailedPrefix =
     [21518, 31471, 20195, 29702, 26381, 21153, 20986, 38169, 32, 40, 29366, 24577, 30721, 58,
      32]"

definition proxyFailedSuffix :: jstring where
  "proxyFailedSuffix =
     [41, 12290, 35831, 26816, 26597, 21518, 31471, 26381, 21153, 26085, 24535, 12290]"

definition upstreamHint :: jstring where
  "upstreamHint =
     [32, 36825, 21487, 33021, 26159, 30001, 20110, 21518, 31471, 26080, 27861, 36830, 25509,
      21040, 19978, 28216, 65, 73, 26381, 21153, 23548, 33268, 30340, 12290]"

definition userFriendlyError :: "nat \<Rightarrow> jstring" where
  "userFriendlyError st =
     proxyFailedPrefix @ digits st @ proxyFailedSuffix @
     (if 500 \<le> st \<and> st < 600 then upstreamHint else [])"

text \<open>
  The body of the \<open>try\<close> block: the text of a response that is \<open>ok\<close>, and a throw
  otherwise. For a response that is not \<open>ok\<close> the body is read only for the console.
\<close>

definition attempt :: "jsError + Response \<Rightarrow> jsError + jstring" where
  "attempt fetched =
     (case fetched of
        Inl err \<Rightarrow> Inl err
      | Inr response \<Rightarrow>
          if \<not> ok response then Inl (Error (userFriendlyError (status response)))
          else text_body response)"

text \<open>
  The observable effects of the loop: a request sent, and a timer awaited (milliseconds).
\<close>

datatype effect = Fetch | Sleep nat

definition retries :: nat where
  "retries = 2"

text \<open>
  The backend branch of \<open>callGenerativeAi\<close>; \<open>net i\<close> is what the fetch of attempt
  \<open>i\<close> (counted from 0) gives. The loop runs while \<open>i \<le> retries\<close>; the statement behind
  the loop is the source's, and is never reached.
\<close>

function backendLoop ::
    "Page \<Rightarrow> (nat \<Rightarrow> jsError + Response) \<Rightarrow> nat \<Rightarrow> effect list \<times> (jsError + jstring)" where
  "backendLoop page net i =
     (if i \<le> retries then
        (case attempt (net i) of
           Inr reply \<Rightarrow> ([Fetch], Inr reply)
         | Inl err \<Rightarrow>
             if i = retries
             then ([Fetch], Inl (Error (getBackendErrorMessage page err (API_BASE_URL page))))
             else (case backendLoop page net (i + 1) of
                     (effects, result) \<Rightarrow> (Fetch # Sleep 1000 # effects, result)))
      else ([], Inl (Error (js ''All retry attempts failed.''))))"
  by pat_completeness auto
termination
  by (relation "measure (\<lambda>(page, net, i). Suc retries - i)") auto

declare backendLoop.simps [simp del]

definition callGenerativeAiBackend ::
    "Page \<Rightarrow> (nat \<Rightarrow> jsError + Response) \<Rightarrow> effect list \<times> (jsError + jstring)" where
  "callGenerativeAiBackend page net = backendLoop page net 0"

section \<open>Streaming\<close>



datatype callback = OnChunk json | OnComplete | OnError jsError


subsection \<open>The event-line consumer: \<open>callOpenAiCompatibleApiStream\<close>\<close>

text \<open>\<open>s.split('\n')\<close>: the pieces between line feeds, at least one.\<close>

fun splitLines :: "jstring \<Rightarrow> jstring list" where
  "splitLines [] = [[]]"
| "splitLines (c # cs) =
     (if c = 10 then [] # splitLines cs
      else (case splitLines cs of
              [] \<Rightarrow> [[c]]
            | l # ls \<Rightarrow> (c # l) # ls))"

text \<open>
  Optional chaining \<open>v?.\<close>: \<open>undefined\<close> when \<open>v\<close> is \<open>null\<close> or \<open>undefined\<close>.
  The element read \<open>v[0]\<close>: the first element of an array, the first character of a string,
  the property \<open>"0"\<close> of an object.
\<close>

definition optChain :: "json option \<Rightarrow> (json \<Rightarrow> jsError + json option) \<Rightarrow> jsError + json option" where
  "optChain v f = (case v of None \<Rightarrow> Inr None | Some JNull \<Rightarrow> Inr None | Some x \<Rightarrow> f x)"

fun index0 :: "json \<Rightarrow> json option" where
  "index0 (JArray xs) = (case xs of [] \<Rightarrow> None | x # rest \<Rightarrow> Some x)"
| "index0 (JString s) = (case s of [] \<Rightarrow> None | c # rest \<Rightarrow> Some (JString [c]))"
| "index0 (JObject ms) = map_of ms (js ''0'')"
| "index0 v = None"

text \<open>\<^verbatim>\<open>data.choices?.[0]?.delta?.content\<close>\<close>

definition deltaContent :: "json \<Rightarrow> jsError + json option" where
  "deltaContent d =
     bindE (getProp (Some d) (js ''choices'')) (\<lambda>choices.
       optChain choices (\<lambda>cs.
         optChain (index0 cs) (\<lambda>choice.
           bindE (getProp (Some choice) (js ''delta'')) (\<lambda>delta.
             optChain delta (\<lambda>dl. getProp (Some dl) (js ''content''))))))"

text \<open>
  The body of the \<open>for\<close> loop over the lines: the callbacks made for one line, and whether
  the function returned there (the sentinel). A payload that does not parse, or whose read
  throws, is caught and logged.
\<close>

definition handleLine :: "jstring \<Rightarrow> callback list \<times> bool" where
  "handleLine line =
     (if startsWith (trim line) (js ''data: '') then
        (let dataStr = trim (drop 6 line) in
         if dataStr = js ''[DONE]'' then ([OnComplete], True)
         else
           (case JSON_parse dataStr of
              None \<Rightarrow> ([], False)
            | Some d \<Rightarrow>
                (case deltaContent d of
                   Inl err \<Rightarrow> ([], False)
                 | Inr content \<Rightarrow>
                     if truthy content then ([OnChunk (the content)], False) else ([], False))))
      else ([], False))"

fun processLines :: "jstring list \<Rightarrow> callback list \<times> bool" where
  "processLines [] = ([], False)"
| "processLines (line # rest) =
     (case handleLine line of
        (cbs, True) \<Rightarrow> (cbs, True)
      | (cbs, False) \<Rightarrow> (case processLines rest of (cbs', returned) \<Rightarrow> (cbs @ cbs', returned)))"

definition terminal :: "jsError option \<Rightarrow> callback list" where
  "terminal end = (case end of None \<Rightarrow> [OnComplete] | Some err \<Rightarrow> [OnError err])"

text \<open>
  The \<open>while (true)\<close> loop: each read is appended to the buffer, the buffer is split, the
  last piece (\<open>lines.pop() || ''\<close>) is the new buffer and the other pieces are handled.
\<close>

fun readLoop :: "jstring \<Rightarrow> jstring list \<Rightarrow> jsError option \<Rightarrow> callback list" where
  "readLoop buffer [] end = terminal end"
| "readLoop buffer (v # rest) end =
     (let lines = splitLines (buffer @ v) in
      case processLines (butlast lines) of
        (cbs, True) \<Rightarrow> cbs
      | (cbs, False) \<Rightarrow> cbs @ readLoop (last lines) rest end)"


subsection \<open>The backend branch of \<open>callGenerativeAiStream\<close>\<close>



section \<open>Roaming, phase 2: \<open>handleStartRoaming\<close>\<close>

record Source =
  source_file :: jstring
  content_chunk :: jstring
  score :: "int \<times> int"

record RoamingResultItem =
  source :: jstring
  relevantText :: jstring
  conclusion :: json

text \<open>
  \<^verbatim>\<open>genAiResponseText.replace(/```json\n?|\n?```/g, '')\<close>: at each position the first
  alternative (the fence with its tag, and a line feed if one follows) is tried before the
  second (the fence, with the line feed before it if there is one).
\<close>

function stripFenceMarks :: "jstring \<Rightarrow> jstring" where
  "stripFenceMarks [] = []"
| "stripFenceMarks (c # cs) =
     (if startsWith (c # cs) (fence @ js ''json'' @ [10]) then stripFenceMarks (drop 7 cs)
      else if startsWith (c # cs) (fence @ js ''json'') then stripFenceMarks (drop 6 cs)
      else if startsWith (c # cs) ([10] @ fence) then stripFenceMarks (drop 3 cs)
      else if startsWith (c # cs) fence then stripFenceMarks (drop 2 cs)
      else c # stripFenceMarks cs)"
  by pat_completeness auto
termination
  by (relation "measure length") auto

definition noConclusionMessage :: jstring where
  "noConclusionMessage = js ''AI model did not return a valid conclusion for one of the documents.''"

definition nothingRelevantMessage :: jstring where
  "nothingRelevantMessage =
     [22312, 30693, 35782, 24211, 20013, 26410, 25214, 21040, 36275, 22815, 30456, 20851,
      30340, 20869, 23481, 26469, 36827, 34892, 28459, 28216, 32852, 24819, 12290]"

text \<open>
  The callback of \<open>sources.map\<close> behind its \<open>await\<close>: the reply is parsed, and the item
  is built when \<open>result.conclusion\<close> is truthy.
\<close>

definition roamingItem :: "Source \<Rightarrow> jstring \<Rightarrow> jsError + RoamingResultItem" where
  "roamingItem src genAiResponseText =
     (case JSON_parse (stripFenceMarks genAiResponseText) of
        None \<Rightarrow> Inl (SyntaxError (js ''Unexpected token''))
      | Some result \<Rightarrow>
          bindE (getProp (Some result) (js ''conclusion'')) (\<lambda>c.
            if \<not> truthy c then Inl (Error noConclusionMessage)
            else Inr \<lparr>source = source_file src, relevantText = content_chunk src,
                      conclusion = the c\<rparr>))"

text \<open>
  \<open>Promise.all\<close> over promises given with the time at which each settles: the values in
  the order of the promises when all fulfil, and otherwise the reason of the promise that
  rejects first (the earliest in the list among those that reject at the same time).
\<close>

fun promiseAll :: "(nat \<times> ('e + 'a)) list \<Rightarrow> (nat \<times> 'e) + 'a list" where
  "promiseAll [] = Inr []"
| "promiseAll ((t, Inl e) # ps) =
     (case promiseAll ps of
        Inl (t', e') \<Rightarrow> if t' < t then Inl (t', e') else Inl (t, e)
      | Inr vs \<Rightarrow> Inl (t, e))"
| "promiseAll ((t, Inr v) # ps) =
     (case promiseAll ps of
        Inl rejection \<Rightarrow> Inl rejection
      | Inr vs \<Rightarrow> Inr (v # vs))"

record RoamingState =
  roamingResult :: "RoamingResultItem list option"
  roamingError :: "jstring option"
  isRoaming :: bool

text \<open>
  \<open>handleStartRoaming\<close> from the point where retrieval has returned \<open>sources\<close>;
  \<open>call i\<close> is when and how the \<open>callGenerativeAi\<close> for the snippet at index \<open>i\<close>
  settles. The value is the state of the view when the handler is done; result and error
  were reset to \<open>null\<close> at its start.
\<close>

definition roamingPromises ::
    "Source list \<Rightarrow> (nat \<Rightarrow> nat \<times> (jsError + jstring)) \<Rightarrow> (nat \<times> (jsError + RoamingResultItem)) list" where
  "roamingPromises sources call =
     map (\<lambda>(i, src). (fst (call i), bindE (snd (call i)) (roamingItem src)))
       (enumerate 0 sources)"

definition handleStartRoaming ::
    "Page \<Rightarrow> Source list \<Rightarrow> (nat \<Rightarrow> nat \<times> (jsError + jstring)) \<Rightarrow> RoamingState" where
  "handleStartRoaming page sources call =
     (if sources = [] then
        \<lparr>roamingResult = None, roamingError = Some nothingRelevantMessage, isRoaming = False\<rparr>
      else
        (case promiseAll (roamingPromises sources call) of
           Inr newRoamingResults \<Rightarrow>
             \<lparr>roamingResult = Some newRoamingResults, roamingError = None, isRoaming = False\<rparr>
         | Inl (t, err) \<Rightarrow>
             \<lparr>roamingResult = None,
              roamingError = Some (getBackendErrorMessage page err (API_BASE_URL page)),
              isRoaming = False\<rparr>))"

section \<open>Notions used in the proofs\<close>

text \<open>
  None of the following is part of the program. They name what the proofs below talk about.
\<close>

subsection \<open>Well-formed values and their tokens\<close>

text \<open>
  The values \<open>JSON.parse\<close> can return: a number is in normal form (no trailing zero in
  the mantissa, and \<open>0\<close> is \<open>JNumber 0 0\<close>), and the names of an object are distinct.
\<close>

fun wfJson :: "json \<Rightarrow> bool" where
  "wfJson (JNumber m e) = (if m = 0 then e = 0 else nat \<bar>m\<bar> mod 10 \<noteq> 0)"
| "wfJson (JArray xs) = list_all wfJson xs"
| "wfJson (JObject ms) = (distinct (map fst ms) \<and> list_all (\<lambda>m. wfJson (snd m)) ms)"
| "wfJson v = True"

fun wfTok :: "token \<Rightarrow> bool" where
  "wfTok (TScalar v) = wfJson v"
| "wfTok t = True"

fun wfFrame :: "frame \<Rightarrow> bool" where
  "wfFrame (ArrFrame es) = list_all wfJson es"
| "wfFrame (ObjFrame ms k) = wfJson (JObject ms)"

fun wfState :: "pstate \<Rightarrow> bool" where
  "wfState (PValue stk) = list_all wfFrame stk"
| "wfState (PFirstElem stk) = list_all wfFrame stk"
| "wfState (PFirstKey stk) = list_all wfFrame stk"
| "wfState (PKey ms stk) = (wfJson (JObject ms) \<and> list_all wfFrame stk)"
| "wfState (PColon ms k stk) = (wfJson (JObject ms) \<and> list_all wfFrame stk)"
| "wfState (PAfter v stk) = (wfJson v \<and> list_all wfFrame stk)"

text \<open>The tokens of the serialization of a value.\<close>

fun joinT :: "token list list \<Rightarrow> token list" where
  "joinT [] = []"
| "joinT [x] = x"
| "joinT (x # y # ys) = x @ TComma # joinT (y # ys)"

fun tokens :: "json \<Rightarrow> token list" where
  "tokens (JArray xs) = TLBracket # joinT (map tokens xs) @ [TRBracket]"
| "tokens (JObject ms) =
     TLBrace # joinT (map (\<lambda>m. TScalar (JString (fst m)) # TColon # tokens (snd m)) ms) @ [TRBrace]"
| "tokens v = [TScalar v]"

definition consTokens :: "token list \<Rightarrow> token list option \<Rightarrow> token list option" where
  "consTokens ts r = map_option ((@) ts) r"

text \<open>
  The text of a non-zero number without its sign, as \<open>numberToString\<close> writes it; what
  may follow a number in a serialization; a text that does not go on with a digit; the
  characters of a number.
\<close>

definition numBody :: "nat \<Rightarrow> int \<Rightarrow> jstring" where
  "numBody m e =
     (let ds = digits m; k = int (length ds); n = k + e in
      if k \<le> n \<and> n \<le> 21 then ds @ replicate (nat (n - k)) 48
      else if 0 < n \<and> n \<le> 21 then take (nat n) ds @ [46] @ drop (nat n) ds
      else if - 6 < n \<and> n \<le> 0 then [48, 46] @ replicate (nat (- n)) 48 @ ds
      else
        (if k = 1 then ds else take 1 ds @ [46] @ drop 1 ds) @ [101] @
        [if 0 \<le> n - 1 then 43 else 45] @ digits (nat \<bar>n - 1\<bar>))"

definition numberEnd :: "jstring \<Rightarrow> bool" where
  "numberEnd rest \<longleftrightarrow> rest = [] \<or> hd rest = 44 \<or> hd rest = 93 \<or> hd rest = 125"

definition noDigit :: "jstring \<Rightarrow> bool" where
  "noDigit rest \<longleftrightarrow> rest = [] \<or> \<not> isDigit (hd rest)"


subsection \<open>Streams and roaming\<close>

text \<open>
  What the event-line loop has called back when the terminated lines \<open>ls\<close> are handled and
  the stream ends with \<open>end\<close>; a payload \<open>p\<close> that is an event carrying the content \<open>c\<close>;
  an item that is the synthesis of a snippet from a settled call.
\<close>

definition afterLines :: "jstring list \<Rightarrow> jsError option \<Rightarrow> callback list" where
  "afterLines ls end =
     (case processLines ls of (cbs, True) \<Rightarrow> cbs | (cbs, False) \<Rightarrow> cbs @ terminal end)"


definition synthesized ::
    "Source \<Rightarrow> nat \<times> (jsError + jstring) \<Rightarrow> RoamingResultItem \<Rightarrow> bool" where
  "synthesized src settled item \<longleftrightarrow>
     (\<exists>reply v. snd settled = Inr reply \<and> JSON_parse (stripFenceMarks reply) = Some v \<and>
        getProp (Some v) (js ''conclusion'') = Inr (Some (conclusion item)) \<and>
        truthy (Some (conclusion item)) \<and>
        source item = source_file src \<and> relevantText item = content_chunk src)"

text \<open>A settled call that rejected, or fulfilled with a string.\<close>

definition textOrRejected :: "jsError + json option \<Rightarrow> bool" where
  "textOrRejected x \<longleftrightarrow> (case x of Inl e \<Rightarrow> True | Inr v \<Rightarrow> typeof v = TString)"

section \<open>Evaluation of the definitions on concrete inputs\<close>

lemmas str_eval = js_def isWhiteSpace_def trim_def trimStart_def trimEnd_def startsWith_def
  str_includes_def substring_def fence_def toLowerCase_def

lemmas json_eval = JSON_parse_def isJsonWs_def isDigit_def consToken_def consUnit_def
  lexNumber_def lexInt_def lexFrac_def lexExp_def digitsValue_def hexDigit_def unescape_def
  normalise.simps digits.simps tokenize.simps Let_def

lemmas parser_eval = parseJsonResponse_def structuralParse_def tryParse_def markdownMatch_def
  isCloser_def noIssuesZh1_def noIssuesZh2_def

section \<open>Properties of \<open>cleanEnv\<close>\<close>

lemma stripTrailingQuotes_fixed:
  "s \<noteq> [] \<Longrightarrow> \<not> trailingQuote (last s) \<Longrightarrow> stripTrailingQuotes s = s"
proof (induction s)
  case Nil
  then show ?case by simp
next
  case (Cons c cs)
  have "\<not> list_all trailingQuote (c # cs)"
    using Cons.prems by (metis last_in_set list_all_iff)
  moreover have "cs \<noteq> [] \<Longrightarrow> stripTrailingQuotes cs = cs"
    using Cons by simp
  ultimately show ?case by (cases cs) simp_all
qed

lemma stripTrailingQuotes_Nil_iff:
  "stripTrailingQuotes s = [] \<longleftrightarrow> list_all trailingQuote s"
  by (induction s) auto

lemma stripTrailingQuotes_last:
  "stripTrailingQuotes s \<noteq> [] \<Longrightarrow> \<not> trailingQuote (last (stripTrailingQuotes s))"
proof (induction s)
  case Nil
  then show ?case by simp
next
  case (Cons c cs)
  from Cons.prems have nall: "\<not> list_all trailingQuote (c # cs)"
    by (simp add: stripTrailingQuotes_Nil_iff del: stripTrailingQuotes.simps)
  then have eq: "stripTrailingQuotes (c # cs) = c # stripTrailingQuotes cs"
    by simp
  show ?case
  proof (cases "stripTrailingQuotes cs = []")
    case True
    then have "list_all trailingQuote cs" by (simp add: stripTrailingQuotes_Nil_iff)
    with nall have "\<not> trailingQuote c" by simp
    with eq True show ?thesis by simp
  next
    case False
    with eq Cons.IH show ?thesis by simp
  qed
qed

lemma stripTrailingQuotes_hd:
  "stripTrailingQuotes s \<noteq> [] \<Longrightarrow> hd (stripTrailingQuotes s) = hd s"
  by (cases s) (auto split: if_splits)

lemma stripTrailingQuotes_length: "length (stripTrailingQuotes s) \<le> length s"
  by (induction s) auto

lemma stripQuotes_fixed:
  assumes "stripQuotes s \<noteq> []"
  shows "stripQuotes (stripQuotes s) = stripQuotes s"
proof -
  let ?d = "dropWhile leadingQuote s"
  let ?r = "stripTrailingQuotes ?d"
  from assms have r: "?r \<noteq> []" by (simp add: stripQuotes_def)
  then have d: "?d \<noteq> []" by (metis stripTrailingQuotes.simps(1))
  have "\<not> leadingQuote (hd ?d)" using d by (rule hd_dropWhile)
  then have "\<not> leadingQuote (hd ?r)" using r by (simp add: stripTrailingQuotes_hd)
  then have "dropWhile leadingQuote ?r = ?r" using r by (cases ?r) simp_all
  moreover have "stripTrailingQuotes ?r = ?r"
    using r by (intro stripTrailingQuotes_fixed stripTrailingQuotes_last)
  ultimately show ?thesis by (simp add: stripQuotes_def)
qed

lemma stripQuotes_length: "length (stripQuotes s) \<le> length s"
proof -
  have "length (stripQuotes s) \<le> length (dropWhile leadingQuote s)"
    by (simp add: stripQuotes_def stripTrailingQuotes_length)
  also have "\<dots> \<le> length s" by (rule length_dropWhile_le)
  finally show ?thesis .
qed

lemma trim_length: "length (trim s) \<le> length s"
proof -
  have "length (trim s) \<le> length (trimStart s)"
    unfolding trim_def trimEnd_def
    by (metis length_dropWhile_le length_rev)
  also have "\<dots> \<le> length s"
    unfolding trimStart_def by (rule length_dropWhile_le)
  finally show ?thesis .
qed

lemma trim_length_eq: "length (trim s) = length s \<Longrightarrow> trim s = s"
proof -
  assume len: "length (trim s) = length s"
  have le1: "length (trim s) \<le> length (trimStart s)"
    unfolding trim_def trimEnd_def by (metis length_dropWhile_le length_rev)
  have le2: "length (trimStart s) \<le> length s"
    unfolding trimStart_def by (rule length_dropWhile_le)
  from len le1 le2 have a: "length (trimStart s) = length s" by simp
  have "s = takeWhile isWhiteSpace s @ trimStart s"
    unfolding trimStart_def by simp
  then have "length s = length (takeWhile isWhiteSpace s) + length (trimStart s)"
    by (metis length_append)
  with a have "takeWhile isWhiteSpace s = []" by simp
  then have s1: "trimStart s = s"
    unfolding trimStart_def by (metis append_Nil takeWhile_dropWhile_id)
  let ?r = "rev s"
  from len s1 have b: "length (dropWhile isWhiteSpace ?r) = length ?r"
    by (simp add: trim_def trimEnd_def)
  have "?r = takeWhile isWhiteSpace ?r @ dropWhile isWhiteSpace ?r" by simp
  then have "length ?r = length (takeWhile isWhiteSpace ?r) + length (dropWhile isWhiteSpace ?r)"
    by (metis length_append)
  with b have "takeWhile isWhiteSpace ?r = []" by simp
  then have "dropWhile isWhiteSpace ?r = ?r"
    by (metis append_Nil takeWhile_dropWhile_id)
  with s1 show "trim s = s" by (simp add: trim_def trimEnd_def)
qed

text \<open>
  Claim C9, as the code has it. \<open>cleanEnv\<close> trims first and strips quotes second, so
  whitespace that stood inside the quotes survives the first pass and is trimmed by a second
  one; and a value that cleans to the empty string is turned into \<open>undefined\<close> by a second
  pass. Applying \<open>cleanEnv\<close> twice gives the same result as applying it once exactly when
  the first result is \<open>undefined\<close>, or is a non-empty string that \<open>trim\<close> leaves unchanged.
\<close>

theorem cleanEnv_idempotent_iff:
  "cleanEnv (cleanEnv v) = cleanEnv v \<longleftrightarrow>
     (cleanEnv v = None \<or> (\<exists>r. cleanEnv v = Some r \<and> r \<noteq> [] \<and> trim r = r))"
proof (cases "cleanEnv v")
  case None
  then show ?thesis by (simp add: cleanEnv_def)
next
  case (Some r)
  then obtain s where r: "r = stripQuotes (trim s)"
    by (auto simp: cleanEnv_def split: option.splits if_splits)
  show ?thesis
  proof (cases "r = []")
    case True
    with Some show ?thesis by (simp add: cleanEnv_def)
  next
    case False
    note ne = this
    show ?thesis
    proof (cases "trim r = r")
      case True
      have "stripQuotes r = r"
        using ne unfolding r by (rule stripQuotes_fixed)
      with Some ne True show ?thesis by (simp add: cleanEnv_def)
    next
      case False
      then have "length (trim r) \<noteq> length r" using trim_length_eq by blast
      then have "length (trim r) < length r" using trim_length [of r] by simp
      then have "length (stripQuotes (trim r)) < length r"
        using stripQuotes_length [of "trim r"] by simp
      then have "stripQuotes (trim r) \<noteq> r" by auto
      with Some ne False show ?thesis by (simp add: cleanEnv_def)
    qed
  qed
qed

theorem cleanEnv_idempotent_iff_witness:
  "cleanEnv (cleanEnv (Some (js '' 'sk-1' ''))) = cleanEnv (Some (js '' 'sk-1' ''))"
proof -
  have "cleanEnv (Some (js '' 'sk-1' '')) = Some (js ''sk-1'')"
    by (simp add: cleanEnv_def stripQuotes_def trim_def trimStart_def trimEnd_def
        isWhiteSpace_def leadingQuote_def trailingQuote_def js_def)
  moreover have "trim (js ''sk-1'') = js ''sk-1''"
    by (simp add: trim_def trimStart_def trimEnd_def isWhiteSpace_def js_def)
  moreover have "js ''sk-1'' \<noteq> []"
    by (simp add: js_def)
  ultimately show ?thesis
    using cleanEnv_idempotent_iff [of "Some (js '' 'sk-1' '')"] by simp
qed

text \<open>
  Claim C9 as stated fails: the value \<^verbatim>\<open>" a "\<close> (a quoted string with blanks inside
  the quotes) cleans to \<^verbatim>\<open> a \<close>, which a second pass trims to \<^verbatim>\<open>a\<close>.
\<close>

theorem cleanEnv_not_idempotent:
  \<open>cleanEnv (cleanEnv (Some (js ''" a "''))) \<noteq> cleanEnv (Some (js ''" a "''))\<close>
  by (simp add: cleanEnv_def stripQuotes_def trim_def trimStart_def trimEnd_def
      isWhiteSpace_def leadingQuote_def trailingQuote_def js_def)

section \<open>\<open>JSON.parse\<close> reads back what \<open>JSON.stringify\<close> writes\<close>

subsection \<open>Strings\<close>

lemma hexDigit_hexChar: "d < 16 \<Longrightarrow> hexDigit (hexChar d) = Some d"
  by (auto simp: hexDigit_def hexChar_def)

lemma hex4_value:
  fixes c :: nat
  assumes "c < 65536"
  shows "((c div 4096 mod 16 * 16 + c div 256 mod 16) * 16 + c div 16 mod 16) * 16 + c mod 16 = c"
proof -
  define q1 where "q1 = c div 16"
  define q2 where "q2 = q1 div 16"
  define q3 where "q3 = q2 div 16"
  have d2: "c div 256 = q2" by (simp add: q2_def q1_def div_mult2_eq [symmetric])
  have d3: "c div 4096 = q3" by (simp add: q3_def q2_def q1_def div_mult2_eq [symmetric])
  from assms have "c div 4096 < 16" by simp
  then have m3: "q3 mod 16 = q3" by (simp add: d3)
  have s3: "q3 * 16 + q2 mod 16 = q2" unfolding q3_def by (rule div_mult_mod_eq)
  have s2: "q2 * 16 + q1 mod 16 = q1" unfolding q2_def by (rule div_mult_mod_eq)
  have s1: "q1 * 16 + c mod 16 = c" unfolding q1_def by (rule div_mult_mod_eq)
  show ?thesis
    unfolding d2 d3 q1_def [symmetric] m3 s3 s2 s1 ..
qed

lemma lexString_unicode:
  assumes "hexDigit h1 = Some d1" "hexDigit h2 = Some d2" "hexDigit h3 = Some d3"
    "hexDigit h4 = Some d4"
  shows "lexString (92 # 117 # h1 # h2 # h3 # h4 # t) =
     consUnit (((d1 * 16 + d2) * 16 + d3) * 16 + d4) (lexString t)"
  using assms by simp

lemma lexString_hex4:
  assumes "c < 65536"
  shows "lexString (92 # 117 # hex4 c @ t) = consUnit c (lexString t)"
proof -
  have "lexString (92 # 117 # hexChar (c div 4096 mod 16) # hexChar (c div 256 mod 16) #
      hexChar (c div 16 mod 16) # hexChar (c mod 16) # t) =
    consUnit (((c div 4096 mod 16 * 16 + c div 256 mod 16) * 16 + c div 16 mod 16) * 16 + c mod 16)
      (lexString t)"
    by (rule lexString_unicode) (simp_all add: hexDigit_hexChar)
  then show ?thesis
    unfolding hex4_value [OF assms] by (simp add: hex4_def)
qed

lemma lexString_quoteUnit:
  "lexString (quoteUnit c @ t) = consUnit c (lexString t)"
proof -
  consider "c = 8" | "c = 9" | "c = 10" | "c = 12" | "c = 13" | "c = 34" | "c = 92"
    | "c \<notin> {8, 9, 10, 12, 13, 34, 92}" "c < 32 \<or> isHighSurrogate c \<or> isLowSurrogate c"
    | "c \<notin> {8, 9, 10, 12, 13, 34, 92}" "\<not> (c < 32 \<or> isHighSurrogate c \<or> isLowSurrogate c)"
    by blast
  then show ?thesis
  proof cases
    case 8
    then have "c < 65536" by (auto simp: isHighSurrogate_def isLowSurrogate_def)
    then have "lexString (92 # 117 # hex4 c @ t) = consUnit c (lexString t)"
      by (rule lexString_hex4)
    with 8 show ?thesis by (simp add: quoteUnit_def)
  next
    case 9
    then show ?thesis by (simp add: quoteUnit_def)
  qed (simp_all add: quoteUnit_def unescape_def)
qed

lemma lexString_quoteUnits:
  "lexString (quoteUnits s @ 34 # rest) = Some (s, rest)"
proof (induction s rule: quoteUnits.induct)
  case 1
  show ?case by simp
next
  case (2 c)
  have "lexString (quoteUnit c @ 34 # rest) = consUnit c (lexString (34 # rest))"
    by (rule lexString_quoteUnit)
  then show ?case by (simp add: consUnit_def)
next
  case (3 c d cs)
  show ?case
  proof (cases "isHighSurrogate c \<and> isLowSurrogate d")
    case True
    then have "c \<noteq> 34" "c \<noteq> 92" "\<not> c < 32" "d \<noteq> 34" "d \<noteq> 92" "\<not> d < 32"
      by (auto simp: isHighSurrogate_def isLowSurrogate_def)
    moreover have ih: "lexString (quoteUnits cs @ 34 # rest) = Some (cs, rest)"
      using "3.IH"(1) True by blast
    moreover have "quoteUnits (c # d # cs) = c # d # quoteUnits cs"
      using True by simp
    ultimately show ?thesis by (simp add: consUnit_def)
  next
    case False
    then have q: "quoteUnits (c # d # cs) = quoteUnit c @ quoteUnits (d # cs)"
      by auto
    have ih: "lexString (quoteUnits (d # cs) @ 34 # rest) = Some (d # cs, rest)"
      using "3.IH"(2) False by blast
    have "lexString (quoteUnits (c # d # cs) @ 34 # rest) =
        lexString (quoteUnit c @ (quoteUnits (d # cs) @ 34 # rest))"
      by (simp only: q append_assoc)
    also have "\<dots> = consUnit c (lexString (quoteUnits (d # cs) @ 34 # rest))"
      by (rule lexString_quoteUnit)
    also have "\<dots> = Some (c # d # cs, rest)"
      by (simp only: ih consUnit_def option.case prod.case)
    finally show ?thesis .
  qed
qed

lemma tokenize_string:
  "tokenize (quoteJSONString s @ rest) = consToken (TScalar (JString s)) (tokenize rest)"
  by (simp add: quoteJSONString_def lexString_quoteUnits isJsonWs_def tokenize.simps)

subsection \<open>Numbers\<close>

lemma digits_isDigit: "list_all isDigit (digits n)"
proof (induction n rule: digits.induct)
  case (1 n)
  show ?case
  proof (cases "n < 10")
    case True
    then show ?thesis by (subst digits.simps) (simp add: isDigit_def)
  next
    case False
    have "n mod 10 < 10" by simp
    then have "isDigit (48 + n mod 10)" unfolding isDigit_def by linarith
    with False 1 show ?thesis by (subst digits.simps) simp
  qed
qed

lemma digits_nonempty: "digits n \<noteq> []"
  by (subst digits.simps) simp

lemma digitsValue_snoc: "digitsValue (ds @ [d]) = 10 * digitsValue ds + (d - 48)"
  by (simp add: digitsValue_def)

lemma digitsValue_digits: "digitsValue (digits n) = n"
proof (induction n rule: digits.induct)
  case (1 n)
  show ?case
  proof (cases "n < 10")
    case True
    then show ?thesis by (subst digits.simps) (simp add: digitsValue_def)
  next
    case False
    with 1 have "digitsValue (digits (n div 10)) = n div 10" by simp
    with False show ?thesis
      by (subst digits.simps) (simp add: digitsValue_snoc)
  qed
qed

lemma digitsValue_append:
  "digitsValue (a @ b) = digitsValue a * 10 ^ length b + digitsValue b"
proof (induction b rule: rev_induct)
  case Nil
  show ?case by (simp add: digitsValue_def)
next
  case (snoc d b)
  have "digitsValue (a @ b @ [d]) = 10 * digitsValue (a @ b) + (d - 48)"
    using digitsValue_snoc [of "a @ b" d] by simp
  with snoc show ?case by (simp add: digitsValue_snoc algebra_simps)
qed

lemma digitsValue_zeros: "digitsValue (replicate j 48) = 0"
proof (induction j)
  case 0
  show ?case by (simp add: digitsValue_def)
next
  case (Suc j)
  have "replicate (Suc j) 48 = replicate j 48 @ [48::nat]"
    by (simp add: replicate_append_same)
  then have "digitsValue (replicate (Suc j) 48) = 10 * digitsValue (replicate j 48) + (48 - 48)"
    by (simp only: digitsValue_snoc)
  with Suc show ?case by simp
qed

lemma hd_digits: "0 < n \<Longrightarrow> hd (digits n) \<noteq> 48"
proof (induction n rule: digits.induct)
  case (1 n)
  show ?case
  proof (cases "n < 10")
    case True
    with 1 show ?thesis by (subst digits.simps) simp
  next
    case False
    then have "0 < n div 10" by simp
    with 1 False have "hd (digits (n div 10)) \<noteq> 48" by simp
    with False show ?thesis
      by (subst digits.simps) (simp add: digits_nonempty)
  qed
qed

lemma numberEnd_noDigit: "numberEnd rest \<Longrightarrow> noDigit rest"
  by (auto simp: numberEnd_def noDigit_def isDigit_def)

lemma takeWhile_digits:
  "list_all isDigit ds \<Longrightarrow> noDigit rest \<Longrightarrow> takeWhile isDigit (ds @ rest) = ds"
  by (cases rest) (auto simp: list_all_iff noDigit_def takeWhile_append)

lemma dropWhile_digits:
  "list_all isDigit ds \<Longrightarrow> noDigit rest \<Longrightarrow> dropWhile isDigit (ds @ rest) = rest"
  by (cases rest) (auto simp: list_all_iff noDigit_def dropWhile_append)

lemma normalise_pow:
  "m mod 10 \<noteq> 0 \<Longrightarrow> normalise (m * 10 ^ j) e = (m, e + int j)"
proof (induction j arbitrary: e)
  case 0
  then have "m \<noteq> 0" by auto
  with 0 show ?case by (subst normalise.simps) simp
next
  case (Suc j)
  from Suc.prems have m: "m \<noteq> 0" by auto
  have "normalise (m * 10 ^ Suc j) e = normalise (m * 10 ^ j) (e + 1)"
    using m by (subst normalise.simps) simp
  also have "\<dots> = (m, e + 1 + int j)" using Suc by simp
  finally show ?case by simp
qed

lemma normalise_fixed: "m mod 10 \<noteq> 0 \<Longrightarrow> normalise m e = (m, e)"
  using normalise_pow [of m 0 e] by simp


lemma lexInt_digits:
  assumes "ds \<noteq> []" "list_all isDigit ds" "hd ds \<noteq> 48" "noDigit rest"
  shows "lexInt (ds @ rest) = Some (ds, rest)"
proof -
  from assms(1) obtain c cs where ds: "ds = c # cs" by (cases ds) auto
  with assms have c: "c \<noteq> 48" "isDigit c" by auto
  have "takeWhile isDigit (ds @ rest) = ds" "dropWhile isDigit (ds @ rest) = rest"
    using assms by (simp_all add: takeWhile_digits dropWhile_digits)
  then have "takeWhile isDigit ((c # cs) @ rest) = c # cs"
    "dropWhile isDigit ((c # cs) @ rest) = rest"
    by (simp_all only: ds)
  with c show ?thesis unfolding ds lexInt_def by simp
qed

lemma lexFrac_none: "s = [] \<or> hd s \<noteq> 46 \<Longrightarrow> lexFrac s = Some ([], s)"
  by (cases s) (auto simp: lexFrac_def)

lemma lexFrac_some:
  assumes "fs \<noteq> []" "list_all isDigit fs" "noDigit rest"
  shows "lexFrac (46 # fs @ rest) = Some (fs, rest)"
  using assms by (simp add: lexFrac_def takeWhile_digits dropWhile_digits)

lemma lexExp_none: "s = [] \<or> (hd s \<noteq> 101 \<and> hd s \<noteq> 69) \<Longrightarrow> lexExp s = Some (0, s)"
  by (cases s) (auto simp: lexExp_def)

lemma lexExp_plus:
  assumes "noDigit rest"
  shows "lexExp (101 # 43 # digits n @ rest) = Some (int n, rest)"
proof -
  have t: "takeWhile isDigit (digits n @ rest) = digits n"
    and d: "dropWhile isDigit (digits n @ rest) = rest"
    using assms digits_isDigit by (simp_all add: takeWhile_digits dropWhile_digits)
  show ?thesis
    by (simp add: lexExp_def Let_def t d digits_nonempty digitsValue_digits)
qed

lemma lexExp_minus:
  assumes "noDigit rest"
  shows "lexExp (101 # 45 # digits n @ rest) = Some (- int n, rest)"
proof -
  have t: "takeWhile isDigit (digits n @ rest) = digits n"
    and d: "dropWhile isDigit (digits n @ rest) = rest"
    using assms digits_isDigit by (simp_all add: takeWhile_digits dropWhile_digits)
  show ?thesis
    by (simp add: lexExp_def Let_def t d digits_nonempty digitsValue_digits)
qed

lemma lexExp_some:
  assumes "noDigit rest"
  shows "lexExp (101 # (if 0 \<le> x then 43 else 45) # digits (nat \<bar>x\<bar>) @ rest) = Some (x, rest)"
proof (cases "0 \<le> x")
  case True
  then have "int (nat \<bar>x\<bar>) = x" by simp
  with True lexExp_plus [OF assms, of "nat \<bar>x\<bar>"] show ?thesis by (simp only: if_True)
next
  case False
  then have "- int (nat \<bar>x\<bar>) = x" by simp
  with False lexExp_minus [OF assms, of "nat \<bar>x\<bar>"] show ?thesis by (simp only: if_False)
qed

lemma lexNumber_assemble:
  assumes "lexInt s1 = Some (ip, s2)" and "lexFrac s2 = Some (fp, s3)"
    and "lexExp s3 = Some (ex, s4)" and "digitsValue (ip @ fp) = m * 10 ^ j"
    and "m mod 10 \<noteq> 0" and "ex - int (length fp) + int j = e"
    and "s1 \<noteq> []" and "hd s1 \<noteq> 45"
  shows "lexNumber s1 = Some (JNumber (int m) e, s4)"
    and "lexNumber (45 # s1) = Some (JNumber (- int m) e, s4)"
proof -
  from assms(7,8) obtain c cs where s1: "s1 = c # cs" "c \<noteq> 45" by (cases s1) auto
  have n: "normalise (digitsValue (ip @ fp)) (ex - int (length fp)) = (m, e)"
    using assms(4,5,6) normalise_pow [of m j "ex - int (length fp)"] by simp
  show "lexNumber s1 = Some (JNumber (int m) e, s4)"
    using assms(1,2,3) n s1 by (simp add: lexNumber_def)
  show "lexNumber (45 # s1) = Some (JNumber (- int m) e, s4)"
    using assms(1,2,3) n by (simp add: lexNumber_def)
qed


lemma numberToString_body:
  "m \<noteq> 0 \<Longrightarrow> numberToString m e = (if m < 0 then [45] else []) @ numBody (nat \<bar>m\<bar>) e"
  by (simp add: numberToString_def numBody_def Let_def)

lemma zeros_isDigit: "list_all isDigit (replicate j 48)"
  by (simp add: list_all_iff isDigit_def)

lemma isDigit_not_minus: "isDigit c \<Longrightarrow> c \<noteq> 45"
  by (auto simp: isDigit_def)

lemma lexNumber_body:
  assumes m: "0 < m" "m mod 10 \<noteq> 0" and rest: "numberEnd rest"
  shows "lexNumber (numBody m e @ rest) = Some (JNumber (int m) e, rest) \<and>
         lexNumber (45 # numBody m e @ rest) = Some (JNumber (- int m) e, rest)"
proof -
  define ds where "ds = digits m"
  define k where "k = int (length ds)"
  define n where "n = k + e"
  have ne: "ds \<noteq> []" and dig: "list_all isDigit ds" and hd0: "hd ds \<noteq> 48"
    and val: "digitsValue ds = m"
    using m(1) by (simp_all add: ds_def digits_nonempty digits_isDigit hd_digits digitsValue_digits)
  from ne dig have hdd: "isDigit (hd ds)" by (cases ds) auto
  have kpos: "0 < k" using ne by (simp add: k_def)
  have nb: "numBody m e =
     (if k \<le> n \<and> n \<le> 21 then ds @ replicate (nat (n - k)) 48
      else if 0 < n \<and> n \<le> 21 then take (nat n) ds @ [46] @ drop (nat n) ds
      else if - 6 < n \<and> n \<le> 0 then [48, 46] @ replicate (nat (- n)) 48 @ ds
      else
        (if k = 1 then ds else take 1 ds @ [46] @ drop 1 ds) @ [101] @
        [if 0 \<le> n - 1 then 43 else 45] @ digits (nat \<bar>n - 1\<bar>))"
    by (simp only: numBody_def Let_def ds_def k_def n_def)
  have nd: "noDigit rest" using rest by (rule numberEnd_noDigit)
  have nofrac: "rest = [] \<or> hd rest \<noteq> 46" using rest by (auto simp: numberEnd_def)
  have noexp: "rest = [] \<or> (hd rest \<noteq> 101 \<and> hd rest \<noteq> 69)"
    using rest by (auto simp: numberEnd_def)
  have fr: "lexFrac rest = Some ([], rest)" using nofrac by (rule lexFrac_none)
  have ex: "lexExp rest = Some (0, rest)" using noexp by (rule lexExp_none)
  consider (plain) "k \<le> n" "n \<le> 21"
    | (point) "\<not> (k \<le> n \<and> n \<le> 21)" "0 < n" "n \<le> 21"
    | (small) "\<not> (k \<le> n \<and> n \<le> 21)" "\<not> (0 < n \<and> n \<le> 21)" "- 6 < n" "n \<le> 0"
    | (expo) "\<not> (k \<le> n \<and> n \<le> 21)" "\<not> (0 < n \<and> n \<le> 21)" "\<not> (- 6 < n \<and> n \<le> 0)"
    by blast
  then show ?thesis
  proof cases
    case plain
    define j where "j = nat (n - k)"
    let ?ip = "ds @ replicate j 48"
    have body: "numBody m e = ?ip"
      unfolding nb j_def using plain by simp
    have "list_all isDigit ?ip" using dig by (simp add: zeros_isDigit)
    moreover have "hd ?ip \<noteq> 48" using ne hd0 by simp
    ultimately have li: "lexInt (?ip @ rest) = Some (?ip, rest)"
      using ne nd by (intro lexInt_digits) simp_all
    have dv: "digitsValue (?ip @ []) = m * 10 ^ j"
      by (simp add: digitsValue_append digitsValue_zeros val)
    have ee: "0 - int (length ([] :: jstring)) + int j = e"
      using plain by (simp add: j_def n_def)
    have s1: "?ip @ rest \<noteq> []" "hd (?ip @ rest) \<noteq> 45"
      using ne hdd by (simp_all add: isDigit_not_minus)
    show ?thesis
      unfolding body
      using lexNumber_assemble [OF li fr ex dv m(2) ee s1] by simp
  next
    case point
    define p where "p = nat n"
    have p: "0 < p" "p < length ds" using point kpos by (auto simp: p_def k_def)
    let ?ip = "take p ds" and ?fp = "drop p ds"
    have body: "numBody m e = ?ip @ [46] @ ?fp"
      unfolding nb p_def using point by simp
    have ipne: "?ip \<noteq> []" using p ne by simp
    have "list_all isDigit ?ip" using dig by (auto simp: list_all_iff dest: in_set_takeD)
    moreover have "hd ?ip \<noteq> 48" using p hd0 by (simp add: hd_take)
    moreover have "noDigit (46 # ?fp @ rest)" by (simp add: noDigit_def isDigit_def)
    ultimately have li: "lexInt (?ip @ (46 # ?fp @ rest)) = Some (?ip, 46 # ?fp @ rest)"
      using ipne by (intro lexInt_digits)
    have "list_all isDigit ?fp" using dig by (auto simp: list_all_iff dest: in_set_dropD)
    moreover have "?fp \<noteq> []" using p by simp
    ultimately have lf: "lexFrac (46 # ?fp @ rest) = Some (?fp, rest)"
      using nd by (intro lexFrac_some)
    have dv: "digitsValue (?ip @ ?fp) = m * 10 ^ 0" by (simp add: val)
    have ee: "0 - int (length ?fp) + int 0 = e"
      using p point by (simp add: p_def k_def n_def)
    have s1: "?ip @ (46 # ?fp @ rest) \<noteq> []" "hd (?ip @ (46 # ?fp @ rest)) \<noteq> 45"
      using ipne p hdd by (simp_all add: hd_take isDigit_not_minus)
    show ?thesis
      unfolding body
      using lexNumber_assemble [OF li lf ex dv m(2) ee s1] by simp
  next
    case small
    define z where "z = nat (- n)"
    let ?fp = "replicate z 48 @ ds"
    have body: "numBody m e = [48, 46] @ ?fp"
      unfolding nb z_def using small by simp
    have li: "lexInt (48 # 46 # ?fp @ rest) = Some ([48], 46 # ?fp @ rest)"
      by (simp add: lexInt_def)
    have "list_all isDigit ?fp" using dig by (simp add: zeros_isDigit)
    moreover have "?fp \<noteq> []" using ne by simp
    ultimately have lf: "lexFrac (46 # ?fp @ rest) = Some (?fp, rest)"
      using nd by (intro lexFrac_some)
    have "digitsValue ([48] @ ?fp) = digitsValue [48] * 10 ^ length ?fp + digitsValue ?fp"
      by (rule digitsValue_append)
    moreover have "digitsValue ?fp = digitsValue (replicate z 48) * 10 ^ length ds + digitsValue ds"
      by (rule digitsValue_append)
    moreover have "digitsValue [48] = 0" by (simp add: digitsValue_def)
    ultimately have dv: "digitsValue ([48] @ ?fp) = m * 10 ^ 0"
      by (simp add: digitsValue_zeros val)
    have ee: "0 - int (length ?fp) + int 0 = e"
      using small by (simp add: z_def k_def n_def)
    have s1: "48 # 46 # ?fp @ rest \<noteq> []" "hd (48 # 46 # ?fp @ rest) \<noteq> 45"
      by simp_all
    show ?thesis
      unfolding body
      using lexNumber_assemble [OF li lf ex dv m(2) ee s1] by simp
  next
    case expo
    define x where "x = n - 1"
    let ?tail = "101 # (if 0 \<le> x then 43 else 45) # digits (nat \<bar>x\<bar>) @ rest"
    have le: "lexExp ?tail = Some (x, rest)" using nd by (rule lexExp_some)
    have ndt: "noDigit ?tail" by (simp add: noDigit_def isDigit_def)
    have body0: "numBody m e =
        (if k = 1 then ds else take 1 ds @ [46] @ drop 1 ds) @ [101] @
        [if 0 \<le> n - 1 then 43 else 45] @ digits (nat \<bar>n - 1\<bar>)"
      unfolding nb using expo by (simp only: if_False)
    show ?thesis
    proof (cases "k = 1")
      case True
      have body: "numBody m e @ rest = ds @ ?tail"
        unfolding body0 x_def using True by simp
      have li: "lexInt (ds @ ?tail) = Some (ds, ?tail)"
        using ne dig hd0 ndt by (rule lexInt_digits)
      have lf: "lexFrac ?tail = Some ([], ?tail)" by (rule lexFrac_none) simp
      have dv: "digitsValue (ds @ []) = m * 10 ^ 0" by (simp add: val)
      have ee: "x - int (length ([] :: jstring)) + int 0 = e"
        using True by (simp add: x_def n_def)
      have s1: "ds @ ?tail \<noteq> []" "hd (ds @ ?tail) \<noteq> 45"
        using ne hdd by (simp_all add: isDigit_not_minus)
      have "45 # numBody m e @ rest = 45 # ds @ ?tail" using body by simp
      then show ?thesis
        unfolding body
        using lexNumber_assemble [OF li lf le dv m(2) ee s1] by simp
    next
      case False
      with ne have k2: "1 < length ds" by (cases ds) (auto simp: k_def)
      let ?ip = "take 1 ds" and ?fp = "drop 1 ds"
      have body: "numBody m e @ rest = ?ip @ (46 # ?fp @ ?tail)"
        unfolding body0 x_def using False by simp
      have ipne: "?ip \<noteq> []" using ne by simp
      have "list_all isDigit ?ip" using dig by (auto simp: list_all_iff dest: in_set_takeD)
      moreover have "hd ?ip \<noteq> 48" using hd0 by (simp add: hd_take)
      moreover have "noDigit (46 # ?fp @ ?tail)" by (simp add: noDigit_def isDigit_def)
      ultimately have li: "lexInt (?ip @ (46 # ?fp @ ?tail)) = Some (?ip, 46 # ?fp @ ?tail)"
        using ipne by (intro lexInt_digits)
      have "list_all isDigit ?fp" using dig by (auto simp: list_all_iff dest: in_set_dropD)
      moreover have "?fp \<noteq> []" using k2 by simp
      ultimately have lf: "lexFrac (46 # ?fp @ ?tail) = Some (?fp, ?tail)"
        using ndt by (intro lexFrac_some)
      have dv: "digitsValue (?ip @ ?fp) = m * 10 ^ 0" by (simp add: val)
      have ee: "x - int (length ?fp) + int 0 = e"
        using k2 by (simp add: x_def n_def k_def)
      have s1: "?ip @ (46 # ?fp @ ?tail) \<noteq> []" "hd (?ip @ (46 # ?fp @ ?tail)) \<noteq> 45"
        using ipne hdd by (simp_all add: hd_take isDigit_not_minus)
      have "45 # numBody m e @ rest = 45 # ?ip @ (46 # ?fp @ ?tail)" using body by simp
      then show ?thesis
        unfolding body
        using lexNumber_assemble [OF li lf le dv m(2) ee s1] by simp
    qed
  qed
qed

subsection \<open>Tokens\<close>

lemma consTokens_simps:
  "consTokens [] r = r"
  "consTokens (t # ts) r = consToken t (consTokens ts r)"
  "consTokens (ts @ us) r = consTokens ts (consTokens us r)"
  by (cases r; simp add: consTokens_def consToken_def)+

lemma numBody_hd:
  assumes "0 < m"
  shows "\<exists>c cs. numBody m e = c # cs \<and> isDigit c"
proof -
  define ds where "ds = digits m"
  define k where "k = int (length ds)"
  define n where "n = k + e"
  have ne: "ds \<noteq> []" by (simp add: ds_def digits_nonempty)
  have "list_all isDigit ds" by (simp add: ds_def digits_isDigit)
  with ne have hdd: "isDigit (hd ds)" by (cases ds) auto
  have nb: "numBody m e =
     (if k \<le> n \<and> n \<le> 21 then ds @ replicate (nat (n - k)) 48
      else if 0 < n \<and> n \<le> 21 then take (nat n) ds @ [46] @ drop (nat n) ds
      else if - 6 < n \<and> n \<le> 0 then [48, 46] @ replicate (nat (- n)) 48 @ ds
      else
        (if k = 1 then ds else take 1 ds @ [46] @ drop 1 ds) @ [101] @
        [if 0 \<le> n - 1 then 43 else 45] @ digits (nat \<bar>n - 1\<bar>))"
    by (simp only: numBody_def Let_def ds_def k_def n_def)
  have t: "0 < p \<Longrightarrow> take p ds \<noteq> [] \<and> hd (take p ds) = hd ds" for p
    using ne by (cases ds; cases p) auto
  have "numBody m e \<noteq> [] \<and> isDigit (hd (numBody m e))"
    unfolding nb using ne hdd t [of "nat n"] t [of 1]
    by (auto simp: isDigit_def)
  then show ?thesis by (cases "numBody m e") auto
qed

lemma tokenize_digit_start:
  "isDigit c \<Longrightarrow> tokenize (c # cs) =
     (case lexNumber (c # cs) of
        None \<Rightarrow> None
      | Some (n, rest) \<Rightarrow> consToken (TScalar n) (tokenize rest))"
  by (auto simp: isDigit_def isJsonWs_def tokenize.simps)

lemma tokenize_minus_start:
  "tokenize (45 # cs) =
     (case lexNumber (45 # cs) of
        None \<Rightarrow> None
      | Some (n, rest) \<Rightarrow> consToken (TScalar n) (tokenize rest))"
  by (simp add: isJsonWs_def tokenize.simps)

lemma tokenize_number:
  assumes wf: "wfJson (JNumber m e)" and rest: "numberEnd rest"
  shows "tokenize (numberToString m e @ rest) = consToken (TScalar (JNumber m e)) (tokenize rest)"
proof (cases "m = 0")
  case True
  with wf have e: "e = 0" by simp
  have fr: "lexFrac rest = Some ([], rest)"
    using rest by (intro lexFrac_none) (auto simp: numberEnd_def)
  have ex: "lexExp rest = Some (0, rest)"
    using rest by (intro lexExp_none) (auto simp: numberEnd_def)
  have "normalise 0 0 = (0, 0)" by (subst normalise.simps) simp
  then have "lexNumber (48 # rest) = Some (JNumber 0 0, rest)"
    by (simp add: lexNumber_def lexInt_def fr ex digitsValue_def)
  moreover have "isDigit 48" by (simp add: isDigit_def)
  ultimately have "tokenize (48 # rest) = consToken (TScalar (JNumber 0 0)) (tokenize rest)"
    by (simp add: tokenize_digit_start)
  with True e show ?thesis by (simp add: numberToString_def)
next
  case False
  define a where "a = nat \<bar>m\<bar>"
  from False wf have m10: "a mod 10 \<noteq> 0" by (simp add: a_def)
  from False have pos: "0 < a" by (simp add: a_def)
  note body = lexNumber_body [OF pos m10 rest, of e]
  obtain c cs where b: "numBody a e = c # cs" and c: "isDigit c"
    using numBody_hd [OF pos] by blast
  have nts: "numberToString m e = (if m < 0 then [45] else []) @ numBody a e"
    using False unfolding a_def by (rule numberToString_body)
  show ?thesis
  proof (cases "m < 0")
    case True
    then have "- int a = m" by (simp add: a_def)
    with body have "lexNumber (45 # numBody a e @ rest) = Some (JNumber m e, rest)"
      by simp
    then have "tokenize (45 # numBody a e @ rest) =
        consToken (TScalar (JNumber m e)) (tokenize rest)"
      by (simp add: tokenize_minus_start)
    with True show ?thesis by (simp add: nts)
  next
    case neg: False
    then have "int a = m" by (simp add: a_def)
    with body have "lexNumber (numBody a e @ rest) = Some (JNumber m e, rest)"
      by simp
    then have "lexNumber (c # cs @ rest) = Some (JNumber m e, rest)"
      by (simp add: b)
    with c have "tokenize (c # cs @ rest) = consToken (TScalar (JNumber m e)) (tokenize rest)"
      by (simp add: tokenize_digit_start)
    with neg show ?thesis by (simp add: nts b)
  qed
qed

lemma tokenize_literals:
  "tokenize (js ''null'' @ rest) = consToken (TScalar JNull) (tokenize rest)"
  "tokenize (js ''true'' @ rest) = consToken (TScalar (JBool True)) (tokenize rest)"
  "tokenize (js ''false'' @ rest) = consToken (TScalar (JBool False)) (tokenize rest)"
  by (simp_all add: js_def startsWith_def isJsonWs_def isDigit_def tokenize.simps)

lemma tokenize_punct:
  "tokenize (91 # rest) = consToken TLBracket (tokenize rest)"
  "tokenize (93 # rest) = consToken TRBracket (tokenize rest)"
  "tokenize (123 # rest) = consToken TLBrace (tokenize rest)"
  "tokenize (125 # rest) = consToken TRBrace (tokenize rest)"
  "tokenize (44 # rest) = consToken TComma (tokenize rest)"
  "tokenize (58 # rest) = consToken TColon (tokenize rest)"
  by (simp_all add: isJsonWs_def tokenize.simps)

lemma tokenize_join:
  assumes "\<And>x r. x \<in> set xs \<Longrightarrow> numberEnd r \<Longrightarrow> tokenize (S x @ r) = consTokens (T x) (tokenize r)"
    and "numberEnd rest"
  shows "tokenize (joinWith [44] (map S xs) @ rest) = consTokens (joinT (map T xs)) (tokenize rest)"
  using assms
proof (induction xs rule: induct_list012)
  case 1
  show ?case by (simp add: consTokens_simps)
next
  case (2 x)
  then show ?case by simp
next
  case (3 x y zs)
  let ?tail = "joinWith [44] (map S (y # zs)) @ rest"
  have ih: "tokenize ?tail = consTokens (joinT (map T (y # zs))) (tokenize rest)"
    using "3.IH"(2) "3.prems" by simp
  have ne: "numberEnd (44 # ?tail)" by (simp add: numberEnd_def)
  have "tokenize (S x @ 44 # ?tail) = consTokens (T x) (tokenize (44 # ?tail))"
    using "3.prems"(1) [of x "44 # ?tail"] ne by simp
  also have "\<dots> = consTokens (T x) (consToken TComma (tokenize ?tail))"
    by (simp add: tokenize_punct)
  finally show ?case
    using ih by (simp add: consTokens_simps)
qed

lemma tokenize_stringify:
  "wfJson v \<Longrightarrow> numberEnd rest \<Longrightarrow>
   tokenize (JSON_stringify v @ rest) = consTokens (tokens v) (tokenize rest)"
proof (induction v arbitrary: rest)
  case JNull
  show ?case by (simp add: tokenize_literals consTokens_simps)
next
  case (JBool b)
  show ?case by (simp add: tokenize_literals consTokens_simps)
next
  case (JNumber m e)
  then show ?case by (simp add: tokenize_number consTokens_simps)
next
  case (JString s)
  show ?case by (simp add: tokenize_string consTokens_simps)
next
  case (JArray xs)
  have el: "tokenize (JSON_stringify x @ r) = consTokens (tokens x) (tokenize r)"
    if "x \<in> set xs" "numberEnd r" for x r
    using that JArray by (auto simp: list_all_iff)
  have ne: "numberEnd (93 # rest)" by (simp add: numberEnd_def)
  have "tokenize (joinWith [44] (map JSON_stringify xs) @ 93 # rest) =
      consTokens (joinT (map tokens xs)) (tokenize (93 # rest))"
    using el ne by (rule tokenize_join)
  then show ?case
    by (simp add: tokenize_punct consTokens_simps)
next
  case (JObject ms)
  let ?S = "\<lambda>m. quoteJSONString (fst m) @ [58] @ JSON_stringify (snd m)"
  let ?T = "\<lambda>m. TScalar (JString (fst m)) # TColon # tokens (snd m)"
  have el: "tokenize (?S m @ r) = consTokens (?T m) (tokenize r)"
    if "m \<in> set ms" "numberEnd r" for m r
  proof -
    obtain k v where m: "m = (k, v)" by (cases m)
    from that JObject.prems have "wfJson v" by (auto simp: list_all_iff m)
    with JObject.IH that have "tokenize (JSON_stringify v @ r) = consTokens (tokens v) (tokenize r)"
      by (auto simp: m)
    then show ?thesis
      by (simp add: m tokenize_string tokenize_punct consTokens_simps)
  qed
  have ne: "numberEnd (125 # rest)" by (simp add: numberEnd_def)
  have "tokenize (joinWith [44] (map ?S ms) @ 125 # rest) =
      consTokens (joinT (map ?T ms)) (tokenize (125 # rest))"
    using el ne by (rule tokenize_join)
  then show ?case
    by (simp add: tokenize_punct consTokens_simps)
qed

subsection \<open>The parser on the tokens of a value\<close>

lemma setProp_fresh: "k \<notin> fst ` set ms \<Longrightarrow> setProp k v ms = ms @ [(k, v)]"
  by (induction ms) auto

lemma tokens_first: "\<exists>t ts. tokens v = t # ts \<and> t \<noteq> TRBracket"
  by (cases v) auto

lemma run_first_elem:
  "t \<noteq> TRBracket \<Longrightarrow> run (PFirstElem stk) (t # ts) = run (PValue (ArrFrame [] # stk)) (t # ts)"
  by simp

lemma run_elems:
  assumes "\<And>x stk ts. x \<in> set xs \<Longrightarrow> run (PValue stk) (tokens x @ ts) = run (PAfter x stk) ts"
    and "xs \<noteq> []"
  shows "run (PValue (ArrFrame es # stk)) (joinT (map tokens xs) @ TRBracket # ts) =
         run (PAfter (JArray (es @ xs)) stk) ts"
  using assms
proof (induction xs arbitrary: es rule: induct_list012)
  case 1
  then show ?case by simp
next
  case (2 x)
  have "run (PValue (ArrFrame es # stk)) (tokens x @ TRBracket # ts) =
      run (PAfter x (ArrFrame es # stk)) (TRBracket # ts)"
    using "2.prems"(1) by simp
  then show ?case by simp
next
  case (3 x y zs)
  let ?rest = "joinT (map tokens (y # zs)) @ TRBracket # ts"
  have "run (PValue (ArrFrame es # stk)) (tokens x @ TComma # ?rest) =
      run (PAfter x (ArrFrame es # stk)) (TComma # ?rest)"
    using "3.prems"(1) by simp
  also have "\<dots> = run (PValue (ArrFrame (es @ [x]) # stk)) ?rest"
    by simp
  also have "\<dots> = run (PAfter (JArray ((es @ [x]) @ y # zs)) stk) ts"
    using "3.prems"(1) by (intro "3.IH"(2)) simp_all
  finally show ?case by simp
qed

lemma run_members:
  assumes "\<And>m stk ts. m \<in> set ms \<Longrightarrow>
      run (PValue stk) (tokens (snd m) @ ts) = run (PAfter (snd m) stk) ts"
    and "ms \<noteq> []" and "distinct (map fst (acc @ ms))"
  shows "run (PKey acc stk)
           (joinT (map (\<lambda>m. TScalar (JString (fst m)) # TColon # tokens (snd m)) ms) @ TRBrace # ts) =
         run (PAfter (JObject (acc @ ms)) stk) ts"
  using assms
proof (induction ms arbitrary: acc rule: induct_list012)
  case 1
  then show ?case by simp
next
  case (2 m)
  obtain k v where m: "m = (k, v)" by (cases m)
  from "2.prems"(3) have fresh: "k \<notin> fst ` set acc" by (auto simp: m)
  have "run (PValue (ObjFrame acc k # stk)) (tokens v @ TRBrace # ts) =
      run (PAfter v (ObjFrame acc k # stk)) (TRBrace # ts)"
    using "2.prems"(1) [of m] by (simp add: m)
  then show ?case by (simp add: m setProp_fresh [OF fresh])
next
  case (3 m y zs)
  obtain k v where m: "m = (k, v)" by (cases m)
  from "3.prems"(3) have fresh: "k \<notin> fst ` set acc" by (auto simp: m)
  let ?T = "\<lambda>m. TScalar (JString (fst m)) # TColon # tokens (snd m)"
  let ?rest = "joinT (map ?T (y # zs)) @ TRBrace # ts"
  have "run (PValue (ObjFrame acc k # stk)) (tokens v @ TComma # ?rest) =
      run (PAfter v (ObjFrame acc k # stk)) (TComma # ?rest)"
    using "3.prems"(1) [of m] by (simp add: m)
  then have "run (PKey acc stk) (?T m @ TComma # ?rest) = run (PKey (acc @ [(k, v)]) stk) ?rest"
    by (simp add: m setProp_fresh [OF fresh])
  also have "\<dots> = run (PAfter (JObject ((acc @ [(k, v)]) @ y # zs)) stk) ts"
    using "3.prems" by (intro "3.IH"(2)) (simp_all add: m)
  finally show ?case by (simp add: m)
qed

lemma run_tokens:
  "wfJson v \<Longrightarrow> run (PValue stk) (tokens v @ ts) = run (PAfter v stk) ts"
proof (induction v arbitrary: stk ts)
  case (JArray xs)
  show ?case
  proof (cases "xs = []")
    case True
    then show ?thesis by simp
  next
    case False
    have el: "run (PValue stk) (tokens x @ ts) = run (PAfter x stk) ts"
      if "x \<in> set xs" for x stk ts
      using that JArray by (auto simp: list_all_iff)
    obtain x ys where xs: "xs = x # ys" using False by (cases xs) auto
    obtain t us where t: "tokens x = t # us" "t \<noteq> TRBracket"
      using tokens_first by blast
    have "joinT (map tokens xs) @ TRBracket # ts \<noteq> []" by simp
    moreover have "hd (joinT (map tokens xs) @ TRBracket # ts) = t"
      using xs t by (cases ys) simp_all
    ultimately obtain more where j: "joinT (map tokens xs) @ TRBracket # ts = t # more"
      by (cases "joinT (map tokens xs) @ TRBracket # ts") auto
    have "run (PValue stk) (tokens (JArray xs) @ ts) =
        run (PFirstElem stk) (joinT (map tokens xs) @ TRBracket # ts)"
      by simp
    also have "\<dots> = run (PValue (ArrFrame [] # stk)) (joinT (map tokens xs) @ TRBracket # ts)"
      unfolding j using t(2) by (rule run_first_elem)
    also have "\<dots> = run (PAfter (JArray ([] @ xs)) stk) ts"
      using el False by (rule run_elems)
    finally show ?thesis by simp
  qed
next
  case (JObject ms)
  show ?case
  proof (cases "ms = []")
    case True
    then show ?thesis by simp
  next
    case False
    let ?T = "\<lambda>m. TScalar (JString (fst m)) # TColon # tokens (snd m)"
    have el: "run (PValue stk) (tokens (snd m) @ ts) = run (PAfter (snd m) stk) ts"
      if "m \<in> set ms" for m stk ts
    proof -
      obtain k v where m: "m = (k, v)" by (cases m)
      from that JObject.prems have "wfJson v" by (auto simp: list_all_iff m)
      with JObject.IH that show ?thesis by (auto simp: m)
    qed
    from JObject.prems have d: "distinct (map fst ([] @ ms))" by simp
    obtain m ys where ms: "ms = m # ys" using False by (cases ms) auto
    have "\<exists>more. joinT (map ?T ms) @ TRBrace # ts = TScalar (JString (fst m)) # more"
      unfolding ms by (cases ys) simp_all
    then obtain others where j: "joinT (map ?T ms) @ TRBrace # ts = TScalar (JString (fst m)) # others"
      by blast
    have "run (PFirstKey stk) (TScalar (JString (fst m)) # others) =
        run (PKey [] stk) (TScalar (JString (fst m)) # others)"
      by simp
    then have "run (PFirstKey stk) (joinT (map ?T ms) @ TRBrace # ts) =
        run (PKey [] stk) (joinT (map ?T ms) @ TRBrace # ts)"
      by (simp only: j)
    also have "\<dots> = run (PAfter (JObject ([] @ ms)) stk) ts"
      using el False d by (rule run_members)
    finally show ?thesis by simp
  qed
qed simp_all

lemma JSON_parse_stringify:
  "wfJson v \<Longrightarrow> JSON_parse (JSON_stringify v) = Some v"
proof -
  assume wf: "wfJson v"
  have "tokenize (JSON_stringify v @ []) = consTokens (tokens v) (tokenize [])"
    using wf by (rule tokenize_stringify) (simp add: numberEnd_def)
  then have t: "tokenize (JSON_stringify v) = Some (tokens v)"
    by (simp add: consTokens_def tokenize.simps)
  have "run (PValue []) (tokens v @ []) = run (PAfter v []) []"
    using wf by (rule run_tokens)
  then have "run (PValue []) (tokens v) = Some v" by simp
  with t show ?thesis by (simp add: JSON_parse_def)
qed

subsection \<open>What the parser returns is well-formed\<close>

lemma normalise_wf:
  "normalise a b = (m, e) \<Longrightarrow> (if m = 0 then e = 0 else m mod 10 \<noteq> 0)"
proof (induction a b rule: normalise.induct)
  case (1 a b)
  show ?case
  proof (cases "a = 0")
    case True
    with "1.prems" show ?thesis by (subst (asm) normalise.simps) simp
  next
    case False
    show ?thesis
    proof (cases "a mod 10 = 0")
      case True
      with False "1.prems" have "normalise (a div 10) (b + 1) = (m, e)"
        by (subst (asm) normalise.simps) simp
      with "1.IH" False True show ?thesis by simp
    next
      case nz: False
      with False "1.prems" have "m = a" "e = b"
        by (subst (asm) normalise.simps, simp)+
      with False nz show ?thesis by simp
    qed
  qed
qed

lemma lexNumber_wf: "lexNumber s = Some (v, rest) \<Longrightarrow> wfJson v"
proof -
  assume a: "lexNumber s = Some (v, rest)"
  then obtain ip fp ex m e neg where n: "normalise (digitsValue (ip @ fp)) (ex - int (length fp)) = (m, e)"
    and v: "v = JNumber (if neg then - int m else int m) e"
    by (auto simp: lexNumber_def Let_def split: option.splits prod.splits)
  from normalise_wf [OF n] show ?thesis
    by (auto simp: v split: if_splits)
qed

lemma tokenize_Cons_cases:
  obtains
    (ws) "tokenize (c # cs) = tokenize cs" "isJsonWs c"
  | (lbrace) "tokenize (c # cs) = consToken TLBrace (tokenize cs)" "c = 123"
  | (rbrace) "tokenize (c # cs) = consToken TRBrace (tokenize cs)" "c = 125"
  | (lbracket) "tokenize (c # cs) = consToken TLBracket (tokenize cs)" "c = 91"
  | (rbracket) "tokenize (c # cs) = consToken TRBracket (tokenize cs)" "c = 93"
  | (colon) "tokenize (c # cs) = consToken TColon (tokenize cs)" "c = 58"
  | (comma) "tokenize (c # cs) = consToken TComma (tokenize cs)" "c = 44"
  | (quote) "tokenize (c # cs) = (case lexString cs of None \<Rightarrow> None | Some (s, rest) \<Rightarrow> consToken (TScalar (JString s)) (tokenize rest))" "c = 34"
  | (num) "tokenize (c # cs) = (case lexNumber (c # cs) of None \<Rightarrow> None | Some (n, rest) \<Rightarrow> consToken (TScalar n) (tokenize rest))" "c = 45 \<or> isDigit c"
  | (true) "tokenize (c # cs) = consToken (TScalar (JBool True)) (tokenize (drop 3 cs))" "startsWith (c # cs) (js ''true'')"
  | (false) "tokenize (c # cs) = consToken (TScalar (JBool False)) (tokenize (drop 4 cs))" "startsWith (c # cs) (js ''false'')"
  | (null) "tokenize (c # cs) = consToken (TScalar JNull) (tokenize (drop 3 cs))" "startsWith (c # cs) (js ''null'')"
  | (none) "tokenize (c # cs) = None"
proof -
  consider
    (ws)  "isJsonWs c"
  | (lbrace) "\<not> (isJsonWs c)" "c = 123"
  | (rbrace) "\<not> (isJsonWs c)" "\<not> (c = 123)" "c = 125"
  | (lbracket) "\<not> (isJsonWs c)" "\<not> (c = 123)" "\<not> (c = 125)" "c = 91"
  | (rbracket) "\<not> (isJsonWs c)" "\<not> (c = 123)" "\<not> (c = 125)" "\<not> (c = 91)" "c = 93"
  | (colon) "\<not> (isJsonWs c)" "\<not> (c = 123)" "\<not> (c = 125)" "\<not> (c = 91)" "\<not> (c = 93)" "c = 58"
  | (comma) "\<not> (isJsonWs c)" "\<not> (c = 123)" "\<not> (c = 125)" "\<not> (c = 91)" "\<not> (c = 93)" "\<not> (c = 58)" "c = 44"
  | (quote) "\<not> (isJsonWs c)" "\<not> (c = 123)" "\<not> (c = 125)" "\<not> (c = 91)" "\<not> (c = 93)" "\<not> (c = 58)" "\<not> (c = 44)" "c = 34"
  | (num) "\<not> (isJsonWs c)" "\<not> (c = 123)" "\<not> (c = 125)" "\<not> (c = 91)" "\<not> (c = 93)" "\<not> (c = 58)" "\<not> (c = 44)" "\<not> (c = 34)" "c = 45 \<or> isDigit c"
  | (true) "\<not> (isJsonWs c)" "\<not> (c = 123)" "\<not> (c = 125)" "\<not> (c = 91)" "\<not> (c = 93)" "\<not> (c = 58)" "\<not> (c = 44)" "\<not> (c = 34)" "\<not> (c = 45 \<or> isDigit c)" "startsWith (c # cs) (js ''true'')"
  | (false) "\<not> (isJsonWs c)" "\<not> (c = 123)" "\<not> (c = 125)" "\<not> (c = 91)" "\<not> (c = 93)" "\<not> (c = 58)" "\<not> (c = 44)" "\<not> (c = 34)" "\<not> (c = 45 \<or> isDigit c)" "\<not> (startsWith (c # cs) (js ''true''))" "startsWith (c # cs) (js ''false'')"
  | (null) "\<not> (isJsonWs c)" "\<not> (c = 123)" "\<not> (c = 125)" "\<not> (c = 91)" "\<not> (c = 93)" "\<not> (c = 58)" "\<not> (c = 44)" "\<not> (c = 34)" "\<not> (c = 45 \<or> isDigit c)" "\<not> (startsWith (c # cs) (js ''true''))" "\<not> (startsWith (c # cs) (js ''false''))" "startsWith (c # cs) (js ''null'')"
  | (none) "\<not> (isJsonWs c)" "\<not> (c = 123)" "\<not> (c = 125)" "\<not> (c = 91)" "\<not> (c = 93)" "\<not> (c = 58)" "\<not> (c = 44)" "\<not> (c = 34)" "\<not> (c = 45 \<or> isDigit c)" "\<not> (startsWith (c # cs) (js ''true''))" "\<not> (startsWith (c # cs) (js ''false''))" "\<not> (startsWith (c # cs) (js ''null''))"
    by blast
  then show ?thesis
  proof cases
    case ws
    then have "tokenize (c # cs) = tokenize cs"
      by (simp add: tokenize.simps)
    with ws that show ?thesis by blast
  next
    case lbrace
    then have "tokenize (c # cs) = consToken TLBrace (tokenize cs)"
      by (simp add: tokenize.simps)
    with lbrace that show ?thesis by blast
  next
    case rbrace
    then have "tokenize (c # cs) = consToken TRBrace (tokenize cs)"
      by (simp add: tokenize.simps)
    with rbrace that show ?thesis by blast
  next
    case lbracket
    then have "tokenize (c # cs) = consToken TLBracket (tokenize cs)"
      by (simp add: tokenize.simps)
    with lbracket that show ?thesis by blast
  next
    case rbracket
    then have "tokenize (c # cs) = consToken TRBracket (tokenize cs)"
      by (simp add: tokenize.simps)
    with rbracket that show ?thesis by blast
  next
    case colon
    then have "tokenize (c # cs) = consToken TColon (tokenize cs)"
      by (simp add: tokenize.simps)
    with colon that show ?thesis by blast
  next
    case comma
    then have "tokenize (c # cs) = consToken TComma (tokenize cs)"
      by (simp add: tokenize.simps)
    with comma that show ?thesis by blast
  next
    case quote
    then have "tokenize (c # cs) = (case lexString cs of None \<Rightarrow> None | Some (s, rest) \<Rightarrow> consToken (TScalar (JString s)) (tokenize rest))"
      by (simp add: tokenize.simps)
    with quote that show ?thesis by blast
  next
    case num
    then have "tokenize (c # cs) = (case lexNumber (c # cs) of None \<Rightarrow> None | Some (n, rest) \<Rightarrow> consToken (TScalar n) (tokenize rest))"
      by (simp add: tokenize.simps)
    with num that show ?thesis by blast
  next
    case true
    then have "tokenize (c # cs) = consToken (TScalar (JBool True)) (tokenize (drop 3 cs))"
      by (simp add: tokenize.simps)
    with true that show ?thesis by blast
  next
    case false
    then have "tokenize (c # cs) = consToken (TScalar (JBool False)) (tokenize (drop 4 cs))"
      by (simp add: tokenize.simps)
    with false that show ?thesis by blast
  next
    case null
    then have "tokenize (c # cs) = consToken (TScalar JNull) (tokenize (drop 3 cs))"
      by (simp add: tokenize.simps)
    with null that show ?thesis by blast
  next
    case none
    then have "tokenize (c # cs) = None"
      by (simp add: tokenize.simps)
    with that show ?thesis by blast
  qed
qed

lemma consToken_Some: "consToken t r = Some ts \<longleftrightarrow> (\<exists>us. r = Some us \<and> ts = t # us)"
  by (cases r) (auto simp: consToken_def)

lemma tokenize_wf: "tokenize s = Some ts \<Longrightarrow> list_all wfTok ts"
proof (induction "length s" arbitrary: s ts rule: less_induct)
  case less
  show ?case
  proof (cases s)
    case Nil
    with less.prems show ?thesis by (simp add: tokenize.simps)
  next
    case (Cons c cs)
    have ih: "list_all wfTok us" if "tokenize r = Some us" "length r \<le> length cs" for r us
      using less.hyps [of r us] that Cons by simp
    have punct: "list_all wfTok ts"
      if "tokenize (c # cs) = consToken t (tokenize r)" "wfTok t" "length r \<le> length cs" for t r
    proof -
      from that(1) less.prems Cons obtain us where "tokenize r = Some us" "ts = t # us"
        by (auto simp: consToken_Some)
      with ih [of r us] that show ?thesis by simp
    qed
    show ?thesis
    proof (cases rule: tokenize_Cons_cases [where c = c and cs = cs])
      case ws
      with less.prems Cons ih [of cs ts] show ?thesis by simp
    next
      case quote
      with less.prems Cons obtain str rest where l: "lexString cs = Some (str, rest)"
        and t: "tokenize (c # cs) = consToken (TScalar (JString str)) (tokenize rest)"
        by (auto split: option.splits)
      from lexString_length [OF l] have "length rest \<le> length cs" by simp
      with t show ?thesis by (intro punct [of "TScalar (JString str)" rest]) simp_all
    next
      case num
      with less.prems Cons obtain n rest where l: "lexNumber (c # cs) = Some (n, rest)"
        and t: "tokenize (c # cs) = consToken (TScalar n) (tokenize rest)"
        by (auto split: option.splits)
      from lexNumber_length [OF l] have "length rest \<le> length cs" by simp
      moreover from l have "wfJson n" by (rule lexNumber_wf)
      ultimately show ?thesis using t by (intro punct [of "TScalar n" rest]) simp_all
    next
      case none
      with less.prems Cons show ?thesis by simp
    qed (auto intro: punct)
  qed
qed


lemma setProp_keys:
  "map fst (setProp k v ms) = (if k \<in> fst ` set ms then map fst ms else map fst ms @ [k])"
  by (induction ms) auto

lemma setProp_values:
  "list_all P (map snd ms) \<Longrightarrow> P v \<Longrightarrow> list_all P (map snd (setProp k v ms))"
  by (induction ms) auto

lemma setProp_wf:
  assumes "wfJson (JObject ms)" and "wfJson v"
  shows "wfJson (JObject (setProp k v ms))"
proof -
  from assms have "list_all wfJson (map snd ms)" by (simp add: list_all_iff)
  then have "list_all wfJson (map snd (setProp k v ms))" using assms(2) by (rule setProp_values)
  then have "list_all (\<lambda>m. wfJson (snd m)) (setProp k v ms)" by (simp add: list_all_iff)
  moreover from assms(1) have "distinct (map fst (setProp k v ms))"
    by (auto simp: setProp_keys)
  ultimately show ?thesis by simp
qed

lemma startValue_wf:
  "list_all wfFrame stk \<Longrightarrow> wfTok t \<Longrightarrow> startValue stk t = Some st \<Longrightarrow> wfState st"
  by (cases t) auto

lemma step_wf:
  assumes "wfState st" and "wfTok t" and "step st t = Some st'"
  shows "wfState st'"
proof (cases st)
  case (PValue stk)
  with assms show ?thesis by (auto intro: startValue_wf)
next
  case (PFirstElem stk)
  show ?thesis
  proof (cases "t = TRBracket")
    case True
    with PFirstElem assms show ?thesis by auto
  next
    case False
    with PFirstElem assms have sv: "startValue (ArrFrame [] # stk) t = Some st'" by simp
    from PFirstElem assms have "list_all wfFrame (ArrFrame [] # stk)" by simp
    then show ?thesis using assms(2) sv by (rule startValue_wf)
  qed
next
  case (PFirstKey stk)
  with assms show ?thesis by (auto split: token.splits json.splits)
next
  case (PKey ms stk)
  with assms show ?thesis by (auto split: token.splits json.splits)
next
  case (PColon ms k stk)
  with assms show ?thesis by (auto split: if_splits)
next
  case (PAfter v stk)
  show ?thesis
  proof (cases stk)
    case Nil
    with PAfter assms show ?thesis by simp
  next
    case (Cons f fs)
    show ?thesis
    proof (cases f)
      case (ArrFrame es)
      with Cons PAfter assms show ?thesis by (auto split: token.splits)
    next
      case (ObjFrame ms k)
      with Cons PAfter assms have "wfJson (JObject (setProp k v ms))"
        by (intro setProp_wf) simp_all
      with ObjFrame Cons PAfter assms show ?thesis by (auto split: token.splits)
    qed
  qed
qed

lemma run_wf:
  "wfState st \<Longrightarrow> list_all wfTok ts \<Longrightarrow> run st ts = Some v \<Longrightarrow> wfJson v"
proof (induction ts arbitrary: st)
  case Nil
  show ?case
  proof (cases st)
    case (PAfter x stk)
    with Nil show ?thesis by (cases stk) auto
  qed (use Nil in auto)
next
  case (Cons t ts)
  from Cons.prems(3) obtain st' where s: "step st t = Some st'" and r: "run st' ts = Some v"
    by (cases st; cases "step st t") (auto split: list.splits)
  from Cons.prems s have "wfState st'" by (auto intro: step_wf)
  with Cons r show ?case by simp
qed

lemma JSON_parse_wf: "JSON_parse s = Some v \<Longrightarrow> wfJson v"
proof -
  assume "JSON_parse s = Some v"
  then obtain ts where t: "tokenize s = Some ts" and r: "run (PValue []) ts = Some v"
    by (auto simp: JSON_parse_def split: option.splits)
  from t have "list_all wfTok ts" by (rule tokenize_wf)
  with r show ?thesis by (intro run_wf [of "PValue []" ts v]) simp_all
qed

lemma JSON_roundtrip: "JSON_parse s = Some v \<Longrightarrow> JSON_parse (JSON_stringify v) = Some v"
  by (intro JSON_parse_stringify JSON_parse_wf)

section \<open>Properties of \<open>parseJsonResponse\<close>\<close>

lemma tryParse_stripped:
  "JSON_parse (stripTrailingCommas s) = Some v \<Longrightarrow> tryParse s = v"
  by (simp add: tryParse_def)

lemma structuralParse_truthy:
  "truthy (Some (tryParse s)) \<Longrightarrow> structuralParse s = tryParse s"
  by (simp add: structuralParse_def Let_def)

text \<open>
  Claim C4, as the code has it. \<open>tryParse\<close> parses the comma-stripped text first, so
  whenever the trimmed text with trailing commas stripped parses to a truthy value, that
  value is the result, whatever the direct parse of the text would give. Consequently an
  input whose trimmed text is valid JSON for a truthy value, and in which no comma stands
  (whitespace apart) before a closing brace or bracket, is returned as the direct parse
  gives it.
\<close>

theorem parseJsonResponse_stage1:
  "(JSON_parse (stripTrailingCommas (trim responseText)) = Some v \<and> truthy (Some v) \<longrightarrow>
      parseJsonResponse responseText = \<lparr>error = None, rawResponse = None, data = v\<rparr>) \<and>
   (stripTrailingCommas (trim responseText) = trim responseText \<and>
    JSON_parse (trim responseText) = Some v \<and> truthy (Some v) \<longrightarrow>
      parseJsonResponse responseText = \<lparr>error = None, rawResponse = None, data = v\<rparr>)"
proof -
  have first: "parseJsonResponse responseText = \<lparr>error = None, rawResponse = None, data = v\<rparr>"
    if p: "JSON_parse (stripTrailingCommas (trim responseText)) = Some v" and t: "truthy (Some v)"
  proof -
    from p have tp: "tryParse (trim responseText) = v" by (rule tryParse_stripped)
    with t have sp: "structuralParse (trim responseText) = v"
      by (simp add: structuralParse_truthy)
    from t have "v \<noteq> JNull" by auto
    with sp show ?thesis by (simp add: parseJsonResponse_def)
  qed
  then show ?thesis by auto
qed

theorem parseJsonResponse_stage1_witness:
  \<open>parseJsonResponse (js '' {"a":1,} '') =
     \<lparr>error = None, rawResponse = None, data = JObject [(js ''a'', JNumber 1 0)]\<rparr> \<and>
   parseJsonResponse (js '' {"a":"1, 2"} '') =
     \<lparr>error = None, rawResponse = None, data = JObject [(js ''a'', JString (js ''1, 2''))]\<rparr>\<close>
proof -
  have a: \<open>JSON_parse (stripTrailingCommas (trim (js '' {"a":1,} ''))) =
      Some (JObject [(js ''a'', JNumber 1 0)])\<close>
    by (simp add: str_eval json_eval parser_eval)
  have b: \<open>stripTrailingCommas (trim (js '' {"a":"1, 2"} '')) = trim (js '' {"a":"1, 2"} '')\<close>
    by (simp add: str_eval json_eval parser_eval)
  have c: \<open>JSON_parse (trim (js '' {"a":"1, 2"} '')) = Some (JObject [(js ''a'', JString (js ''1, 2''))])\<close>
    by (simp add: str_eval json_eval parser_eval)
  show ?thesis
    using parseJsonResponse_stage1 [of \<open>js '' {"a":1,} ''\<close> "JObject [(js ''a'', JNumber 1 0)]"]
      parseJsonResponse_stage1 [of \<open>js '' {"a":"1, 2"} ''\<close> "JObject [(js ''a'', JString (js ''1, 2''))]"]
      a b c
    by simp
qed

text \<open>
  Claim C4 as stated fails. The text \<^verbatim>\<open>{"a":",}"}\<close> is valid JSON whose member is the
  string \<^verbatim>\<open>,}\<close>; the stripped variant, tried first, is \<^verbatim>\<open>{"a":"}"}\<close>, valid too, and the
  parser returns its value: the member is the string \<^verbatim>\<open>}\<close>.
\<close>

theorem parseJsonResponse_not_direct:
  \<open>JSON_parse (trim (js ''{"a":",}"}'')) = Some (JObject [(js ''a'', JString (js '',}''))]) \<and>
   parseJsonResponse (js ''{"a":",}"}'') =
     \<lparr>error = None, rawResponse = None, data = JObject [(js ''a'', JString (js ''}''))]\<rparr>\<close>
  by (simp add: str_eval json_eval parser_eval)

text \<open>
  Claim C10. When the structural stages leave \<open>null\<close> and the lower-cased response
  contains one of the three phrases, the result is the empty list with no error. The guard
  \<^verbatim>\<open>Array.isArray([] as T)\<close> tests a fresh array and holds; the type argument of the caller
  is erased and is no argument here, so the result cannot depend on it.
\<close>

theorem parseJsonResponse_sentinel:
  "isArray (JArray []) \<and>
   (structuralParse (trim responseText) = JNull \<and>
    (str_includes (toLowerCase responseText) (js ''no issues found'') \<or>
     str_includes (toLowerCase responseText) noIssuesZh1 \<or>
     str_includes (toLowerCase responseText) noIssuesZh2) \<longrightarrow>
    parseJsonResponse responseText = \<lparr>error = None, rawResponse = None, data = JArray []\<rparr>)"
  by (auto simp: parseJsonResponse_def Let_def)

theorem parseJsonResponse_sentinel_witness:
  "parseJsonResponse (js ''No Issues Found.'') = \<lparr>error = None, rawResponse = None, data = JArray []\<rparr> \<and>
   parseJsonResponse ([32463, 26816, 26597, 65292] @ noIssuesZh2 @ [20219, 20309, 38382, 39064, 12290]) =
     \<lparr>error = None, rawResponse = None, data = JArray []\<rparr>"
proof -
  let ?zh = "[32463, 26816, 26597, 65292] @ noIssuesZh2 @ [20219, 20309, 38382, 39064, 12290]"
  have a: "structuralParse (trim (js ''No Issues Found.'')) = JNull"
    by (simp add: str_eval json_eval parser_eval)
  have b: "str_includes (toLowerCase (js ''No Issues Found.'')) (js ''no issues found'')"
    by (simp add: str_eval)
  have c: "structuralParse (trim ?zh) = JNull"
    by (simp add: str_eval json_eval parser_eval)
  have d: "str_includes (toLowerCase ?zh) noIssuesZh2"
    by (simp add: str_eval noIssuesZh2_def)
  show ?thesis
    using parseJsonResponse_sentinel [of "js ''No Issues Found.''"]
      parseJsonResponse_sentinel [of ?zh] a b c d
    by simp
qed

subsection \<open>Parsing the serialization of a recovered value\<close>





















section \<open>Properties of the audit reconstruction and of the fan-out\<close>

lemma rebuildIssue_total: "\<exists>r. rebuildIssue x = Inr r"
  by (cases x) (simp_all add: rebuildIssue_def bindE_def)

lemma mapE_total:
  assumes "\<And>x. \<exists>r. f x = Inr r"
  shows "mapE f xs = Inr (map (\<lambda>x. projr (f x)) xs)"
proof (induction xs)
  case Nil
  show ?case by simp
next
  case (Cons x xs)
  from assms obtain r where "f x = Inr r" by blast
  with Cons show ?case by (simp add: bindE_def)
qed

lemma validIssues_eq:
  "validIssues xs = Inr (List.map_filter (\<lambda>x. projr (rebuildIssue x)) xs)"
proof -
  have "mapE rebuildIssue xs = Inr (map (\<lambda>x. projr (rebuildIssue x)) xs)"
    by (rule mapE_total) (rule rebuildIssue_total)
  then show ?thesis
    by (simp add: validIssues_def bindE_def List.map_filter_def filter_map comp_def)
qed

lemma validIssues_append:
  "validIssues (xs @ ys) =
     bindE (validIssues xs) (\<lambda>a. bindE (validIssues ys) (\<lambda>b. Inr (a @ b)))"
  by (simp add: validIssues_eq bindE_def List.map_filter_def)

lemma issuesArrayOf_total: "\<exists>r. issuesArrayOf d = Inr r"
  by (cases d) (auto simp: issuesArrayOf_def bindE_def split: option.splits json.splits)

lemma parseAuditResponse_total: "\<exists>r. parseAuditResponse t = Inr r"
proof -
  obtain s where s: "issuesArrayOf (data (parseJsonResponse t)) = Inr s"
    using issuesArrayOf_total by blast
  show ?thesis
    by (cases s) (simp_all add: parseAuditResponse_def Let_def s bindE_def validIssues_eq)
qed

lemma auditEntry_string: "\<exists>r. auditEntry (Inr (Some (JString t))) = Inr r"
proof -
  obtain r where "parseAuditResponse t = Inr r" using parseAuditResponse_total by blast
  then show ?thesis by (simp add: auditEntry_def bindE_def)
qed

lemma auditEntry_throws: "typeof v \<noteq> TString \<Longrightarrow> auditEntry (Inr v) = Inl (trimTypeError v)"
proof (cases v)
  case None
  then show ?thesis by (simp add: auditEntry_def)
next
  case (Some j)
  assume "typeof v \<noteq> TString"
  with Some show ?thesis by (cases j) (simp_all add: auditEntry_def)
qed

lemma auditEntry_total: "textOrRejected x \<Longrightarrow> \<exists>r. auditEntry x = Inr r"
proof (cases x)
  case (Inl e)
  then show ?thesis by (simp add: auditEntry_def)
next
  case (Inr v)
  assume "textOrRejected x"
  with Inr have "typeof v = TString" by (simp add: textOrRejected_def)
  then obtain t where "v = Some (JString t)"
    by (cases v rule: typeof.cases) simp_all
  with Inr auditEntry_string [of t] show ?thesis by simp
qed

lemma collectResults_eq:
  "distinct (map fst ps) \<Longrightarrow> list_all (\<lambda>p. textOrRejected (snd p)) ps \<Longrightarrow>
   collectResults acc ps =
     Inr (\<lambda>m. case map_of ps m of None \<Rightarrow> acc m | Some r \<Rightarrow> Some (projr (auditEntry r)))"
proof (induction ps arbitrary: acc)
  case Nil
  show ?case by simp
next
  case (Cons p ps)
  obtain model result where p: "p = (model, result)" by (cases p)
  from Cons.prems p have ok: "textOrRejected result"
    and oks: "list_all (\<lambda>p. textOrRejected (snd p)) ps" by simp_all
  obtain e where e: "auditEntry result = Inr e" using auditEntry_total [OF ok] by blast
  from Cons.prems p have d: "distinct (map fst ps)" and n: "model \<notin> fst ` set ps" by auto
  from n have none: "map_of ps model = None" by (simp add: map_of_eq_None_iff)
  show ?case
    unfolding p collectResults.simps e bindE_def sum.case Cons.IH [OF d oks]
    by (auto simp: fun_eq_iff none e split: option.splits)
qed

lemma collectResults_throws:
  "(model, Inr v) \<in> set ps \<Longrightarrow> typeof v \<noteq> TString \<Longrightarrow> \<exists>e. collectResults acc ps = Inl e"
proof (induction ps arbitrary: acc)
  case Nil
  then show ?case by simp
next
  case (Cons p ps)
  obtain m result where p: "p = (m, result)" by (cases p)
  show ?case
  proof (cases "auditEntry result")
    case (Inl e)
    then show ?thesis by (simp add: p bindE_def)
  next
    case (Inr entry)
    have "(model, Inr v) \<noteq> p"
    proof
      assume "(model, Inr v) = p"
      with p have "result = Inr v" by simp
      with auditEntry_throws [OF Cons.prems(2)] Inr show False by simp
    qed
    with Cons.prems(1) have "(model, Inr v) \<in> set ps" by auto
    from Cons.IH [OF this Cons.prems(2)] obtain e
      where "collectResults (acc(m \<mapsto> entry)) ps = Inl e" by blast
    with Inr show ?thesis by (simp add: p bindE_def)
  qed
qed


lemma validIssues_single:
  "validIssues [x] = Inr (case projr (rebuildIssue x) of None \<Rightarrow> [] | Some i \<Rightarrow> [i])"
  by (simp add: validIssues_eq List.map_filter_def split: option.splits)

lemma rebuildIssue_object:
  "rebuildIssue (JObject ms) =
     (let pt = map_of ms (js ''problematicText'');
          sg = map_of ms (js ''suggestion'');
          ex = map_of ms (js ''explanation'');
          rest = \<lparr>problematicText = (if truthy pt then the pt else JString unspecifiedText),
                   suggestion = stringOr sg [],
                   checklistItem = stringOr (map_of ms (js ''checklistItem'')) generalRule,
                   explanation = stringOr ex (stringOr (map_of ms (js ''reason'')) noExplanation)\<rparr>
      in if \<not> truthy pt \<or> typeof pt \<noteq> TString then
           (if (truthy sg \<and> typeof sg = TString) \<or> (truthy ex \<and> typeof ex = TString)
            then Inr (Some rest) else Inr None)
         else Inr (Some rest))"
  by (simp add: rebuildIssue_def bindE_def Let_def)

text \<open>
  Claim C8, as the code has it. The reconstruction never raises, and every entry is rebuilt
  on its own, so an entry that is dropped changes nothing about its siblings. An object
  whose \<open>problematicText\<close> is absent or falsy (\<open>null\<close>, \<open>false\<close>, \<open>0\<close>, the empty string)
  is kept under the placeholder when its \<open>suggestion\<close> or its \<open>explanation\<close> is a non-empty
  string. An object without a non-empty string \<open>problematicText\<close> is dropped when neither
  is a non-empty string. An object with a non-empty string \<open>problematicText\<close> is kept with
  it. \<open>null\<close>, primitives and arrays are dropped.
\<close>

theorem validIssues_salvage:
  "(\<exists>ys. validIssues xs = Inr ys) \<and>
   validIssues (xs @ zs) =
     bindE (validIssues xs) (\<lambda>a. bindE (validIssues zs) (\<lambda>b. Inr (a @ b))) \<and>
   (validIssues [x] = Inr [] \<longrightarrow> validIssues (xs @ x # zs) = validIssues (xs @ zs)) \<and>
   (\<not> truthy (map_of ms (js ''problematicText'')) \<and>
    ((truthy (map_of ms (js ''suggestion'')) \<and> typeof (map_of ms (js ''suggestion'')) = TString) \<or>
     (truthy (map_of ms (js ''explanation'')) \<and> typeof (map_of ms (js ''explanation'')) = TString))
    \<longrightarrow> (\<exists>i. validIssues [JObject ms] = Inr [i] \<and> problematicText i = JString unspecifiedText \<and>
            suggestion i = stringOr (map_of ms (js ''suggestion'')) [])) \<and>
   ((\<not> truthy (map_of ms (js ''problematicText'')) \<or>
     typeof (map_of ms (js ''problematicText'')) \<noteq> TString) \<and>
    \<not> (truthy (map_of ms (js ''suggestion'')) \<and> typeof (map_of ms (js ''suggestion'')) = TString) \<and>
    \<not> (truthy (map_of ms (js ''explanation'')) \<and> typeof (map_of ms (js ''explanation'')) = TString)
    \<longrightarrow> validIssues [JObject ms] = Inr []) \<and>
   (truthy (map_of ms (js ''problematicText'')) \<and>
    typeof (map_of ms (js ''problematicText'')) = TString
    \<longrightarrow> (\<exists>i. validIssues [JObject ms] = Inr [i] \<and>
            Some (problematicText i) = map_of ms (js ''problematicText''))) \<and>
   validIssues [JNull] = Inr [] \<and> validIssues [JBool b] = Inr [] \<and>
   validIssues [JNumber m e] = Inr [] \<and> validIssues [JString s] = Inr [] \<and>
   validIssues [JArray vs] = Inr []"
proof -
  have total: "\<exists>ys. validIssues xs = Inr ys"
    by (simp add: validIssues_eq)
  have app: "validIssues (xs @ zs) =
      bindE (validIssues xs) (\<lambda>a. bindE (validIssues zs) (\<lambda>b. Inr (a @ b)))"
    by (rule validIssues_append)
  have drop: "validIssues [x] = Inr [] \<longrightarrow> validIssues (xs @ x # zs) = validIssues (xs @ zs)"
    by (simp add: validIssues_eq List.map_filter_def)
  have salvage:
    "\<not> truthy (map_of ms (js ''problematicText'')) \<and>
     ((truthy (map_of ms (js ''suggestion'')) \<and> typeof (map_of ms (js ''suggestion'')) = TString) \<or>
      (truthy (map_of ms (js ''explanation'')) \<and> typeof (map_of ms (js ''explanation'')) = TString))
     \<longrightarrow> (\<exists>i. validIssues [JObject ms] = Inr [i] \<and> problematicText i = JString unspecifiedText \<and>
            suggestion i = stringOr (map_of ms (js ''suggestion'')) [])"
    by (auto simp: validIssues_single rebuildIssue_object Let_def)
  have dropped:
    "(\<not> truthy (map_of ms (js ''problematicText'')) \<or>
      typeof (map_of ms (js ''problematicText'')) \<noteq> TString) \<and>
     \<not> (truthy (map_of ms (js ''suggestion'')) \<and> typeof (map_of ms (js ''suggestion'')) = TString) \<and>
     \<not> (truthy (map_of ms (js ''explanation'')) \<and> typeof (map_of ms (js ''explanation'')) = TString)
     \<longrightarrow> validIssues [JObject ms] = Inr []"
    by (auto simp: validIssues_single rebuildIssue_object Let_def)
  have kept:
    "truthy (map_of ms (js ''problematicText'')) \<and>
     typeof (map_of ms (js ''problematicText'')) = TString
     \<longrightarrow> (\<exists>i. validIssues [JObject ms] = Inr [i] \<and>
            Some (problematicText i) = map_of ms (js ''problematicText''))"
    by (cases "map_of ms (js ''problematicText'')")
       (auto simp: validIssues_single rebuildIssue_object Let_def)
  have prim:
    "validIssues [JNull] = Inr [] \<and> validIssues [JBool b] = Inr [] \<and>
     validIssues [JNumber m e] = Inr [] \<and> validIssues [JString s] = Inr [] \<and>
     validIssues [JArray vs] = Inr []"
    by (simp add: validIssues_single rebuildIssue_def bindE_def)
  from total app drop salvage dropped kept prim show ?thesis by blast
qed

text \<open>
  The theorem at a batch of four: a complete issue, a \<open>null\<close>, an object with only
  \<open>suggestion: "fix it"\<close> and an object with only an empty \<open>explanation\<close>. The second and
  the fourth are dropped, the first is kept as it is and the third under the placeholder.
\<close>

theorem validIssues_salvage_witness:
  "validIssues [JObject [(js ''suggestion'', JString (js ''fix it''))]] =
     Inr [\<lparr>problematicText = JString unspecifiedText, suggestion = js ''fix it'',
           checklistItem = generalRule, explanation = noExplanation\<rparr>] \<and>
   validIssues [JObject [(js ''explanation'', JString [])]] = Inr [] \<and>
   validIssues
     ([JObject [(js ''problematicText'', JString (js ''teh'')), (js ''suggestion'', JString (js ''the''))]] @
      JNull #
      [JObject [(js ''suggestion'', JString (js ''fix it''))], JObject [(js ''explanation'', JString [])]]) =
     Inr [\<lparr>problematicText = JString (js ''teh''), suggestion = js ''the'',
           checklistItem = generalRule, explanation = noExplanation\<rparr>,
          \<lparr>problematicText = JString unspecifiedText, suggestion = js ''fix it'',
           checklistItem = generalRule, explanation = noExplanation\<rparr>]"
proof -
  let ?valid = "JObject [(js ''problematicText'', JString (js ''teh'')), (js ''suggestion'', JString (js ''the''))]"
  let ?salv = "JObject [(js ''suggestion'', JString (js ''fix it''))]"
  let ?bad = "JObject [(js ''explanation'', JString [])]"
  have a: "validIssues [?salv] =
      Inr [\<lparr>problematicText = JString unspecifiedText, suggestion = js ''fix it'',
            checklistItem = generalRule, explanation = noExplanation\<rparr>]"
    by (simp add: validIssues_single rebuildIssue_object js_def)
  have b: "validIssues [?bad] = Inr []"
    by (simp add: validIssues_single rebuildIssue_object js_def)
  have c: "validIssues [?valid] =
      Inr [\<lparr>problematicText = JString (js ''teh''), suggestion = js ''the'',
            checklistItem = generalRule, explanation = noExplanation\<rparr>]"
    by (simp add: validIssues_single rebuildIssue_object js_def)
  have d: "validIssues ([?valid] @ JNull # [?salv, ?bad]) = validIssues ([?valid] @ [?salv, ?bad])"
    using validIssues_salvage [of "[?valid]" "[?salv, ?bad]" JNull] by blast
  have e: "validIssues ([?valid] @ [?salv, ?bad]) =
      bindE (validIssues [?valid]) (\<lambda>a. bindE (validIssues [?salv, ?bad]) (\<lambda>b. Inr (a @ b)))"
    using validIssues_salvage [of "[?valid]" "[?salv, ?bad]"] by blast
  have f: "validIssues ([?salv] @ [?bad]) =
      bindE (validIssues [?salv]) (\<lambda>a. bindE (validIssues [?bad]) (\<lambda>b. Inr (a @ b)))"
    using validIssues_salvage [of "[?salv]" "[?bad]"] by blast
  from a b c d e f show ?thesis by (simp add: bindE_def)
qed

text \<open>
  Claim C8 as stated fails: an object whose only field is \<open>suggestion: ""\<close> lacks
  \<open>problematicText\<close> and carries a string suggestion, yet it is dropped, because the test
  asks for a non-empty string.
\<close>

theorem validIssues_empty_suggestion_dropped:
  "validIssues [JObject [(js ''suggestion'', JString [])]] = Inr []"
  by (simp add: validIssues_single rebuildIssue_object js_def)

text \<open>
  What the fan-out does when every call either rejects or fulfils with a string: it yields a
  map with one entry for each of the six providers. The entry of a provider whose call
  rejected has no issues and the rejection's message; the entry of a provider whose call
  fulfilled is what \<open>parseAuditResponse\<close> makes of its text (issues, or an error with the raw
  response). An entry depends on that provider's own call only: a second run that differs in
  the other providers' calls gives the same entry.
\<close>

lemma handleAuditAll_entries:
  assumes "\<forall>model. textOrRejected (call model)" and "\<forall>model. textOrRejected (call' model)"
  shows "\<exists>res res'.
     handleAuditAll call = Inr res \<and> handleAuditAll call' = Inr res' \<and>
     dom res = set allModels \<and> card (dom res) = 6 \<and>
     (\<forall>model reason. call model = Inl reason \<longrightarrow>
        res model = Some \<lparr>error = Some (message reason), rawResponse = None, issues = []\<rparr>) \<and>
     (\<forall>model reply. call model = Inr (Some (JString reply)) \<longrightarrow>
        (\<exists>r. parseAuditResponse reply = Inr r \<and> res model = Some r)) \<and>
     (\<forall>model. call' model = call model \<longrightarrow> res' model = res model)"
proof -
  have dist: "distinct (map fst (zip allModels (map f allModels)))"
    for f :: "ModelProvider \<Rightarrow> jsError + json option"
    by (simp add: allModels_def)
  have univ: "set allModels = UNIV"
  proof -
    have "m \<in> set allModels" for m by (cases m) (simp_all add: allModels_def)
    then show ?thesis by auto
  qed
  have lookup: "map_of (zip allModels (map f allModels)) m = Some (f m)"
    for f :: "ModelProvider \<Rightarrow> jsError + json option" and m
    by (cases m) (simp_all add: allModels_def)
  have run: "handleAuditAll f = Inr (\<lambda>m. Some (projr (auditEntry (f m))))"
    if "\<forall>model. textOrRejected (f model)"
    for f :: "ModelProvider \<Rightarrow> jsError + json option"
  proof -
    from that have "list_all (\<lambda>p. textOrRejected (snd p)) (zip allModels (map f allModels))"
      by (simp add: allModels_def)
    from collectResults_eq [OF dist this] show ?thesis
      unfolding handleAuditAll_def by (simp add: lookup)
  qed
  let ?res = "\<lambda>m. Some (projr (auditEntry (call m)))"
  let ?res' = "\<lambda>m. Some (projr (auditEntry (call' m)))"
  have d: "dom ?res = set allModels" by (auto simp: univ)
  have "card (set allModels) = 6" by (simp add: allModels_def)
  with d have c: "card (dom ?res) = 6" by simp
  have rej: "\<forall>model reason. call model = Inl reason \<longrightarrow>
      ?res model = Some \<lparr>error = Some (message reason), rawResponse = None, issues = []\<rparr>"
    by (simp add: auditEntry_def)
  have ful: "\<forall>model reply. call model = Inr (Some (JString reply)) \<longrightarrow>
      (\<exists>r. parseAuditResponse reply = Inr r \<and> ?res model = Some r)"
  proof (intro allI impI)
    fix model reply
    assume t: "call model = Inr (Some (JString reply))"
    obtain r where r: "parseAuditResponse reply = Inr r"
      using parseAuditResponse_total by blast
    with t show "\<exists>r. parseAuditResponse reply = Inr r \<and> ?res model = Some r"
      by (simp add: auditEntry_def bindE_def)
  qed
  have ind: "\<forall>model. call' model = call model \<longrightarrow> ?res' model = ?res model"
    by simp
  from run [OF assms(1)] run [OF assms(2)] d c rej ful ind show ?thesis by blast
qed

text \<open>
  When one call fulfils with a value that is not a string, the handler throws, whatever the
  other calls did, and no map is stored.
\<close>

lemma handleAuditAll_throws:
  assumes "call model = Inr v" and "typeof v \<noteq> TString"
  shows "\<exists>e. handleAuditAll call = Inl e"
proof -
  have "model \<in> set allModels" by (cases model) (simp_all add: allModels_def)
  then have "(model, call model) \<in> set (zip allModels (map call allModels))"
    by (auto simp: in_set_zip in_set_conv_nth)
  with assms(1) have "(model, Inr v) \<in> set (zip allModels (map call allModels))" by simp
  from collectResults_throws [OF this assms(2)] show ?thesis
    by (simp add: handleAuditAll_def)
qed

text \<open>
  Claim C2 says that the fan-out never fails as a unit and that the map has one entry for
  each provider. The handler breaks this where one call fulfils with a value that is not a
  string. In the run below the call for \<open>openai\<close> fulfils with \<open>null\<close> (a reply whose
  \<open>message.content\<close> is \<open>null\<close>) and every other call answers \<open>[]\<close>: the \<open>TypeError\<close> of
  \<open>responseText.trim()\<close> leaves the \<open>forEach\<close>, the handler rejects with it, and no entry
  is stored for any provider, \<open>gemini\<close> included, whose text had been parsed already.
\<close>

theorem handleAuditAll_fails_as_a_unit:
  "handleAuditAll (\<lambda>model. if model = openai then Inr (Some JNull)
                            else Inr (Some (JString (js ''[]'')))) =
     Inl (TypeError (js ''Cannot read properties of null (reading '' @ [39] @ js ''trim'' @ [39, 41]))"
proof -
  have p: "parseAuditResponse (js ''[]'') = Inr \<lparr>error = None, rawResponse = None, issues = []\<rparr>"
    by (simp add: parseAuditResponse_def issuesArrayOf_def validIssues_def bindE_def
        List.map_filter_def str_eval json_eval parser_eval)
  show ?thesis
    by (simp add: handleAuditAll_def allModels_def auditEntry_def p bindE_def)
qed
section \<open>Properties of the backend invocation\<close>

lemma backendLoop_2:
  "backendLoop page net (Suc (Suc 0)) =
     ([Fetch],
      case attempt (net (Suc (Suc 0))) of
        Inr reply \<Rightarrow> Inr reply
      | Inl err \<Rightarrow> Inl (Error (getBackendErrorMessage page err (API_BASE_URL page))))"
  by (subst backendLoop.simps) (simp add: retries_def numeral_2_eq_2 split: sum.splits)

lemma backendLoop_1:
  "backendLoop page net (Suc 0) =
     (case attempt (net (Suc 0)) of
        Inr reply \<Rightarrow> ([Fetch], Inr reply)
      | Inl err \<Rightarrow>
          (Fetch # Sleep 1000 # fst (backendLoop page net (Suc (Suc 0))),
           snd (backendLoop page net (Suc (Suc 0)))))"
  by (subst backendLoop.simps)
     (simp add: retries_def numeral_2_eq_2 case_prod_beta split: sum.splits)

lemma backendLoop_0:
  "backendLoop page net 0 =
     (case attempt (net 0) of
        Inr reply \<Rightarrow> ([Fetch], Inr reply)
      | Inl err \<Rightarrow>
          (Fetch # Sleep 1000 # fst (backendLoop page net (Suc 0)),
           snd (backendLoop page net (Suc 0))))"
  by (subst backendLoop.simps)
     (simp add: retries_def numeral_2_eq_2 case_prod_beta split: sum.splits)

lemmas backendLoop_unfold =
  callGenerativeAiBackend_def backendLoop_0 backendLoop_1 backendLoop_2 numeral_2_eq_2

text \<open>
  Claim C1. An attempt fails when the fetch rejects, when the status is outside 200..299,
  or when reading the body fails. The call returns the text of the first attempt that
  succeeds, after one request per attempt and a wait of 1000 ms before each retry; after
  three failed attempts it throws the message classified from the third attempt's error.
  No run sends more than three requests.
\<close>

theorem callGenerativeAiBackend_retry:
  "(attempt (net 0) = Inr reply \<longrightarrow>
      callGenerativeAiBackend page net = ([Fetch], Inr reply)) \<and>
   (attempt (net 0) = Inl e0 \<and> attempt (net 1) = Inr reply \<longrightarrow>
      callGenerativeAiBackend page net = ([Fetch, Sleep 1000, Fetch], Inr reply)) \<and>
   (attempt (net 0) = Inl e0 \<and> attempt (net 1) = Inl e1 \<and> attempt (net 2) = Inr reply \<longrightarrow>
      callGenerativeAiBackend page net =
        ([Fetch, Sleep 1000, Fetch, Sleep 1000, Fetch], Inr reply)) \<and>
   (attempt (net 0) = Inl e0 \<and> attempt (net 1) = Inl e1 \<and> attempt (net 2) = Inl e2 \<longrightarrow>
      callGenerativeAiBackend page net =
        ([Fetch, Sleep 1000, Fetch, Sleep 1000, Fetch],
         Inl (Error (getBackendErrorMessage page e2 (API_BASE_URL page))))) \<and>
   length (filter (\<lambda>x. x = Fetch) (fst (callGenerativeAiBackend page net))) \<le> 3 \<and>
   (attempt (net i) = Inr reply \<longleftrightarrow>
      (\<exists>response. net i = Inr response \<and> 200 \<le> status response \<and> status response \<le> 299 \<and>
                  text_body response = Inr reply))"
proof -
  have a: "attempt (net 0) = Inr reply \<longrightarrow>
      callGenerativeAiBackend page net = ([Fetch], Inr reply)"
    by (simp add: backendLoop_unfold)
  have b: "attempt (net 0) = Inl e0 \<and> attempt (net 1) = Inr reply \<longrightarrow>
      callGenerativeAiBackend page net = ([Fetch, Sleep 1000, Fetch], Inr reply)"
    by (simp add: backendLoop_unfold)
  have c: "attempt (net 0) = Inl e0 \<and> attempt (net 1) = Inl e1 \<and> attempt (net 2) = Inr reply \<longrightarrow>
      callGenerativeAiBackend page net =
        ([Fetch, Sleep 1000, Fetch, Sleep 1000, Fetch], Inr reply)"
    by (simp add: backendLoop_unfold)
  have d: "attempt (net 0) = Inl e0 \<and> attempt (net 1) = Inl e1 \<and> attempt (net 2) = Inl e2 \<longrightarrow>
      callGenerativeAiBackend page net =
        ([Fetch, Sleep 1000, Fetch, Sleep 1000, Fetch],
         Inl (Error (getBackendErrorMessage page e2 (API_BASE_URL page))))"
    by (simp add: backendLoop_unfold)
  have e: "length (filter (\<lambda>x. x = Fetch) (fst (callGenerativeAiBackend page net))) \<le> 3"
    by (simp add: backendLoop_unfold split: sum.splits)
  have f: "attempt (net i) = Inr reply \<longleftrightarrow>
      (\<exists>response. net i = Inr response \<and> 200 \<le> status response \<and> status response \<le> 299 \<and>
                  text_body response = Inr reply)"
    by (cases "net i") (auto simp: attempt_def ok_def)
  from a b c d e f show ?thesis by blast
qed

text \<open>
  The theorem at two runs on a page served over plain HTTP. In the first the fetches of
  attempts 1 and 2 reject with \<open>TypeError: Failed to fetch\<close> and the third answers 200
  with the text \<open>[]\<close>. In the second the attempts answer 502, 503 and 504: the message
  thrown is the one made for 504, the last.
\<close>

theorem callGenerativeAiBackend_retry_witness:
  "callGenerativeAiBackend
     \<lparr>protocol = Some (js ''http:''), isProduction = False, VITE_API_BASE_URL = None\<rparr>
     (\<lambda>i. if i < 2 then Inl (TypeError (js ''Failed to fetch''))
          else Inr \<lparr>status = 200, statusText = js ''OK'', text_body = Inr (js ''[]'')\<rparr>) =
     ([Fetch, Sleep 1000, Fetch, Sleep 1000, Fetch], Inr (js ''[]'')) \<and>
   callGenerativeAiBackend
     \<lparr>protocol = Some (js ''http:''), isProduction = False, VITE_API_BASE_URL = None\<rparr>
     (\<lambda>i. Inr \<lparr>status = 502 + i, statusText = [], text_body = Inr []\<rparr>) =
     ([Fetch, Sleep 1000, Fetch, Sleep 1000, Fetch], Inl (Error (userFriendlyError 504)))"
proof -
  let ?page = "\<lparr>protocol = Some (js ''http:''), isProduction = False, VITE_API_BASE_URL = None\<rparr>"
  let ?net = "\<lambda>i::nat. if i < 2 then Inl (TypeError (js ''Failed to fetch''))
          else Inr \<lparr>status = 200, statusText = js ''OK'', text_body = Inr (js ''[]'')\<rparr>"
  let ?down = "\<lambda>i::nat. Inr \<lparr>status = 502 + i, statusText = [], text_body = Inr []\<rparr>
          :: jsError + Response"
  have "attempt (?net 0) = Inl (TypeError (js ''Failed to fetch''))"
    and "attempt (?net 1) = Inl (TypeError (js ''Failed to fetch''))"
    and "attempt (?net 2) = Inr (js ''[]'')"
    by (simp_all add: attempt_def ok_def)
  then have first: "callGenerativeAiBackend ?page ?net =
      ([Fetch, Sleep 1000, Fetch, Sleep 1000, Fetch], Inr (js ''[]''))"
    using callGenerativeAiBackend_retry [of ?net "js ''[]''" ?page
        "TypeError (js ''Failed to fetch'')" "TypeError (js ''Failed to fetch'')"]
    by blast
  have "attempt (?down 0) = Inl (Error (userFriendlyError 502))"
    and "attempt (?down 1) = Inl (Error (userFriendlyError 503))"
    and "attempt (?down 2) = Inl (Error (userFriendlyError 504))"
    by (simp_all add: attempt_def ok_def)
  then have "callGenerativeAiBackend ?page ?down =
      ([Fetch, Sleep 1000, Fetch, Sleep 1000, Fetch],
       Inl (Error (getBackendErrorMessage ?page (Error (userFriendlyError 504)) (API_BASE_URL ?page))))"
    using callGenerativeAiBackend_retry [of ?down _ ?page
        "Error (userFriendlyError 502)" "Error (userFriendlyError 503)"
        "Error (userFriendlyError 504)"]
    by blast
  moreover have "getBackendErrorMessage ?page (Error (userFriendlyError 504)) (API_BASE_URL ?page) =
      userFriendlyError 504"
    by (simp add: getBackendErrorMessage_def userFriendlyError_def proxyFailedPrefix_def js_def)
  ultimately show ?thesis using first by simp
qed

section \<open>Properties of the streaming consumers\<close>

lemma splitLines_nonempty: "splitLines s \<noteq> []"
  by (induction s) (auto split: list.splits)

lemma splitLines_Cons:
  "splitLines (c # cs) =
     (if c = 10 then [] # splitLines cs
      else (c # hd (splitLines cs)) # tl (splitLines cs))"
  using splitLines_nonempty [of cs] by (cases "splitLines cs") simp_all

lemma splitLines_no_newline: "10 \<notin> set s \<Longrightarrow> splitLines s = [s]"
  by (induction s) (auto split: list.splits)

lemma last_splitLines: "10 \<notin> set (last (splitLines s))"
proof (induction s)
  case Nil
  show ?case by simp
next
  case (Cons c cs)
  obtain l ls where sp: "splitLines cs = l # ls"
    using splitLines_nonempty [of cs] by (cases "splitLines cs") auto
  show ?case
  proof (cases "c = 10")
    case True
    with Cons sp show ?thesis by simp
  next
    case False
    with Cons sp show ?thesis by (cases ls) auto
  qed
qed

lemma splitLines_append:
  "splitLines (s @ t) = butlast (splitLines s) @ splitLines (last (splitLines s) @ t)"
proof (induction s)
  case Nil
  show ?case by simp
next
  case (Cons c cs)
  obtain l ls where sp: "splitLines cs = l # ls"
    using splitLines_nonempty [of cs] by (cases "splitLines cs") auto
  obtain l' ls' where sp': "splitLines (last (splitLines cs) @ t) = l' # ls'"
    using splitLines_nonempty [of "last (splitLines cs) @ t"]
    by (cases "splitLines (last (splitLines cs) @ t)") auto
  show ?case
  proof (cases "c = 10")
    case True
    with Cons sp show ?thesis by simp
  next
    case False
    show ?thesis
    proof (cases ls)
      case Nil
      with False Cons sp sp' show ?thesis by simp
    next
      case (Cons a as)
      with False Cons.IH sp sp' show ?thesis by simp
    qed
  qed
qed

lemma processLines_append:
  "processLines (xs @ ys) =
     (case processLines xs of
        (cbs, True) \<Rightarrow> (cbs, True)
      | (cbs, False) \<Rightarrow> (cbs @ fst (processLines ys), snd (processLines ys)))"
  by (induction xs) (auto split: prod.splits bool.splits)

lemma readLoop_lines:
  "10 \<notin> set buffer \<Longrightarrow>
   readLoop buffer chunks end = afterLines (butlast (splitLines (buffer @ concat chunks))) end"
proof (induction chunks arbitrary: buffer)
  case Nil
  then show ?case by (simp add: splitLines_no_newline afterLines_def)
next
  case (Cons v rest)
  let ?lines = "splitLines (buffer @ v)"
  have split: "splitLines (buffer @ v @ concat rest) =
      butlast ?lines @ splitLines (last ?lines @ concat rest)"
    using splitLines_append [of "buffer @ v" "concat rest"] by simp
  have bl: "butlast (splitLines (buffer @ v @ concat rest)) =
      butlast ?lines @ butlast (splitLines (last ?lines @ concat rest))"
    unfolding split by (simp add: butlast_append splitLines_nonempty)
  have ih: "readLoop (last ?lines) rest end =
      afterLines (butlast (splitLines (last ?lines @ concat rest))) end"
    by (rule Cons.IH) (rule last_splitLines)
  show ?case
    by (simp add: Let_def ih bl afterLines_def processLines_append
        split: prod.splits bool.splits)
qed


lemma splitLines_line:
  "10 \<notin> set l \<Longrightarrow> splitLines (l @ 10 # t) = l # splitLines t"
  by (induction l) (auto split: list.splits)









text \<open>
  Claim C6. Whatever the division of the text into reads, the callbacks are those of the
  terminated lines of the whole text, in order; the piece behind the last line feed is held
  back and delivers nothing. So two divisions of one text give the same callbacks, a line
  whose line feed arrives in the next read (or anywhere in the two reads) is handled exactly
  once, and a line that never gets its line feed is not handled at all.
\<close>

theorem readLoop_framing:
  "readLoop [] chunks end =
     (case processLines (butlast (splitLines (concat chunks))) of
        (cbs, True) \<Rightarrow> cbs
      | (cbs, False) \<Rightarrow> cbs @ terminal end) \<and>
   (concat chunks = concat chunks' \<longrightarrow> readLoop [] chunks end = readLoop [] chunks' end) \<and>
   (10 \<notin> set line \<and> a @ b = line @ [10] \<longrightarrow>
      readLoop [] [a, b] None =
        (case handleLine line of (cbs, True) \<Rightarrow> cbs | (cbs, False) \<Rightarrow> cbs @ [OnComplete])) \<and>
   (10 \<notin> set line \<longrightarrow> readLoop [] [line] None = [OnComplete])"
proof -
  have all: "readLoop [] cs e = afterLines (butlast (splitLines (concat cs))) e" for cs e
    using readLoop_lines [of "[]" cs e] by simp
  have one: "readLoop [] chunks end =
     (case processLines (butlast (splitLines (concat chunks))) of
        (cbs, True) \<Rightarrow> cbs
      | (cbs, False) \<Rightarrow> cbs @ terminal end)"
    by (simp add: all afterLines_def)
  have two: "concat chunks = concat chunks' \<longrightarrow> readLoop [] chunks end = readLoop [] chunks' end"
    by (simp add: all)
  have three: "10 \<notin> set line \<and> a @ b = line @ [10] \<longrightarrow>
      readLoop [] [a, b] None =
        (case handleLine line of (cbs, True) \<Rightarrow> cbs | (cbs, False) \<Rightarrow> cbs @ [OnComplete])"
  proof (intro impI, elim conjE)
    assume nl: "10 \<notin> set line" and ab: "a @ b = line @ [10]"
    have "splitLines (line @ 10 # []) = line # splitLines []"
      using nl by (rule splitLines_line)
    then have "butlast (splitLines (concat [a, b])) = [line]"
      using ab by simp
    then show "readLoop [] [a, b] None =
        (case handleLine line of (cbs, True) \<Rightarrow> cbs | (cbs, False) \<Rightarrow> cbs @ [OnComplete])"
      unfolding all afterLines_def
      by (simp add: terminal_def split: prod.splits bool.splits)
  qed
  have four: "10 \<notin> set line \<longrightarrow> readLoop [] [line] None = [OnComplete]"
    by (simp add: all afterLines_def splitLines_no_newline terminal_def)
  from one two three four show ?thesis by blast
qed


text \<open>
  The theorem at the event line \<^verbatim>\<open>data: {"choices":[{"delta":{"content":"Hi"}}]}\<close>: with its
  line feed alone in the second read, with the line feed at the end of the first read, and
  with the division inside the line, the text \<open>Hi\<close> is delivered once; without the line feed
  nothing is delivered.
\<close>

theorem readLoop_framing_witness:
  \<open>readLoop [] [js ''data: {"choices":[{"delta":{"content":"Hi"}}]}'', [10]] None =
     [OnChunk (JString (js ''Hi'')), OnComplete] \<and>
   readLoop [] [js ''data: {"choices":[{"delta":{"content":"Hi"}}]}'' @ [10], []] None =
     [OnChunk (JString (js ''Hi'')), OnComplete] \<and>
   readLoop [] [js ''data: {"choi'', js ''ces":[{"delta":{"content":"Hi"}}]}'' @ [10]] None =
     [OnChunk (JString (js ''Hi'')), OnComplete] \<and>
   readLoop [] [js ''data: {"choices":[{"delta":{"content":"Hi"}}]}''] None = [OnComplete]\<close>
proof -
  let ?line = \<open>js ''data: {"choices":[{"delta":{"content":"Hi"}}]}''\<close>
  have nl: "10 \<notin> set ?line" by (simp add: js_def)
  have h: "handleLine ?line = ([OnChunk (JString (js ''Hi''))], False)"
    by (simp add: handleLine_def deltaContent_def optChain_def bindE_def str_eval json_eval)
  have s3: \<open>js ''data: {"choi'' @ (js ''ces":[{"delta":{"content":"Hi"}}]}'' @ [10]) = ?line @ [10]\<close>
    by (simp add: js_def)
  have r1: "readLoop [] [?line, [10]] None =
      (case handleLine ?line of (cbs, True) \<Rightarrow> cbs | (cbs, False) \<Rightarrow> cbs @ [OnComplete])"
    using readLoop_framing [of _ _ _ ?line ?line "[10]"] nl by blast
  have r2: "readLoop [] [?line @ [10], []] None =
      (case handleLine ?line of (cbs, True) \<Rightarrow> cbs | (cbs, False) \<Rightarrow> cbs @ [OnComplete])"
    using readLoop_framing [of _ _ _ ?line "?line @ [10]" "[]"] nl by (metis append_Nil2)
  have r3: \<open>readLoop [] [js ''data: {"choi'', js ''ces":[{"delta":{"content":"Hi"}}]}'' @ [10]] None =
      (case handleLine ?line of (cbs, True) \<Rightarrow> cbs | (cbs, False) \<Rightarrow> cbs @ [OnComplete])\<close>
    using readLoop_framing [of _ _ _ ?line
        \<open>js ''data: {"choi''\<close> \<open>js ''ces":[{"delta":{"content":"Hi"}}]}'' @ [10]\<close>] nl s3
    by blast
  have r4: "readLoop [] [?line] None = [OnComplete]"
    using readLoop_framing [of _ _ _ ?line] nl by blast
  from r1 r2 r3 r4 show ?thesis unfolding h by simp
qed




section \<open>Properties of roaming, phase 2\<close>

lemma promiseAll_Inr:
  "promiseAll ps = Inr vs \<longleftrightarrow> map snd ps = map Inr vs"
proof (induction ps arbitrary: vs rule: promiseAll.induct)
  case 1
  show ?case by auto
next
  case (2 t e ps)
  show ?case by (auto split: sum.splits prod.splits)
next
  case (3 t v ps)
  show ?case
  proof (cases "promiseAll ps")
    case (Inl x)
    with 3 have "\<And>ws. map snd ps \<noteq> map Inr ws" by simp
    with Inl show ?thesis by (cases vs) auto
  next
    case (Inr ws)
    with 3 have eq: "\<And>us. (ws = us) = (map snd ps = map Inr us)" by simp
    from eq [of ws] have ps: "map snd ps = map Inr ws" by simp
    from Inr ps show ?thesis by (cases vs) (auto simp: inj_map_eq_map)
  qed
qed

lemma roamingPromises_length: "length (roamingPromises sources call) = length sources"
  by (simp add: roamingPromises_def)

lemma roamingPromises_nth:
  "i < length sources \<Longrightarrow>
   roamingPromises sources call ! i =
     (fst (call i), bindE (snd (call i)) (roamingItem (sources ! i)))"
  by (simp add: roamingPromises_def nth_enumerate_eq)

lemma roamingItem_Inr:
  "roamingItem src reply = Inr item \<longleftrightarrow>
     (\<exists>v c. JSON_parse (stripFenceMarks reply) = Some v \<and>
            getProp (Some v) (js ''conclusion'') = Inr (Some c) \<and> truthy (Some c) \<and>
            item = \<lparr>source = source_file src, relevantText = content_chunk src, conclusion = c\<rparr>)"
proof (cases "JSON_parse (stripFenceMarks reply)")
  case None
  then show ?thesis by (simp add: roamingItem_def)
next
  case (Some v)
  show ?thesis
  proof (cases "getProp (Some v) (js ''conclusion'')")
    case (Inl e)
    with Some show ?thesis by (simp add: roamingItem_def bindE_def)
  next
    case (Inr c)
    with Some show ?thesis
      by (cases c) (auto simp: roamingItem_def bindE_def)
  qed
qed

lemma promise_synthesized:
  "bindE (snd settled) (roamingItem src) = Inr item \<longleftrightarrow> synthesized src settled item"
  by (cases "snd settled") (auto simp: bindE_def roamingItem_Inr synthesized_def)

lemma roaming_all:
  "promiseAll (roamingPromises sources call) = Inr items \<longleftrightarrow>
     length items = length sources \<and>
     (\<forall>i<length sources. synthesized (sources ! i) (call i) (items ! i))"
proof -
  have "promiseAll (roamingPromises sources call) = Inr items \<longleftrightarrow>
      map snd (roamingPromises sources call) = map Inr items"
    by (rule promiseAll_Inr)
  also have "\<dots> \<longleftrightarrow> length items = length sources \<and>
      (\<forall>i<length sources. snd (roamingPromises sources call ! i) = Inr (items ! i))"
    by (auto simp: list_eq_iff_nth_eq roamingPromises_length)
  also have "\<dots> \<longleftrightarrow> length items = length sources \<and>
      (\<forall>i<length sources. synthesized (sources ! i) (call i) (items ! i))"
    by (simp add: roamingPromises_nth promise_synthesized cong: conj_cong)
  finally show ?thesis .
qed


lemma roaming_some_fails:
  assumes "promiseAll (roamingPromises sources call) = Inl x"
  shows "\<exists>i<length sources. \<forall>item. \<not> synthesized (sources ! i) (call i) item"
proof (rule ccontr)
  assume "\<not> ?thesis"
  then have ex: "\<forall>i<length sources. \<exists>item. synthesized (sources ! i) (call i) item"
    by blast
  define items where
    "items = map (\<lambda>i. SOME item. synthesized (sources ! i) (call i) item) [0..<length sources]"
  have "length items = length sources" by (simp add: items_def)
  moreover have "\<forall>i<length sources. synthesized (sources ! i) (call i) (items ! i)"
  proof (intro allI impI)
    fix i
    assume i: "i < length sources"
    with ex obtain item where "synthesized (sources ! i) (call i) item" by blast
    then have "synthesized (sources ! i) (call i)
        (SOME item. synthesized (sources ! i) (call i) item)"
      by (rule someI)
    with i show "synthesized (sources ! i) (call i) (items ! i)"
      by (simp add: items_def)
  qed
  ultimately have "promiseAll (roamingPromises sources call) = Inr items"
    by (simp add: roaming_all)
  with assms show False by simp
qed

text \<open>
  Claim C3. With at least one snippet retrieved, the workflow ends either with a result or
  with an error, never with both and never with a part of the result. When it ends with a
  result, the result has one item for each snippet, in the order of the snippets, and for
  each snippet the call fulfilled and its reply, fence marks removed, parsed to a JSON
  object whose \<open>conclusion\<close> is truthy (not absent, \<open>null\<close>, \<open>false\<close>, \<open>0\<close> or the
  empty string) and is the item's conclusion. When it ends with an error there is no result,
  and for at least one snippet the call rejected or its reply had no such conclusion. So
  there is a result exactly when every call succeeded with a conclusion.
\<close>

theorem handleStartRoaming_all_or_nothing:
  "sources \<noteq> [] \<longrightarrow>
     (case roamingResult (handleStartRoaming page sources call) of
        Some items \<Rightarrow>
          roamingError (handleStartRoaming page sources call) = None \<and>
          length items = length sources \<and>
          (\<forall>i<length sources.
             source (items ! i) = source_file (sources ! i) \<and>
             relevantText (items ! i) = content_chunk (sources ! i) \<and>
             truthy (Some (conclusion (items ! i))) \<and>
             (\<exists>reply v. snd (call i) = Inr reply \<and>
                JSON_parse (stripFenceMarks reply) = Some v \<and>
                getProp (Some v) (js ''conclusion'') = Inr (Some (conclusion (items ! i)))))
      | None \<Rightarrow>
          roamingError (handleStartRoaming page sources call) \<noteq> None \<and>
          (\<exists>i<length sources.
             \<not> (\<exists>reply v c. snd (call i) = Inr reply \<and>
                  JSON_parse (stripFenceMarks reply) = Some v \<and>
                  getProp (Some v) (js ''conclusion'') = Inr (Some c) \<and> truthy (Some c))))"
proof (intro impI)
  assume ne: "sources \<noteq> []"
  show "case roamingResult (handleStartRoaming page sources call) of
        Some items \<Rightarrow>
          roamingError (handleStartRoaming page sources call) = None \<and>
          length items = length sources \<and>
          (\<forall>i<length sources.
             source (items ! i) = source_file (sources ! i) \<and>
             relevantText (items ! i) = content_chunk (sources ! i) \<and>
             truthy (Some (conclusion (items ! i))) \<and>
             (\<exists>reply v. snd (call i) = Inr reply \<and>
                JSON_parse (stripFenceMarks reply) = Some v \<and>
                getProp (Some v) (js ''conclusion'') = Inr (Some (conclusion (items ! i)))))
      | None \<Rightarrow>
          roamingError (handleStartRoaming page sources call) \<noteq> None \<and>
          (\<exists>i<length sources.
             \<not> (\<exists>reply v c. snd (call i) = Inr reply \<and>
                  JSON_parse (stripFenceMarks reply) = Some v \<and>
                  getProp (Some v) (js ''conclusion'') = Inr (Some c) \<and> truthy (Some c)))"
  proof (cases "promiseAll (roamingPromises sources call)")
    case (Inr items)
    then have len: "length items = length sources"
      and syn: "\<forall>i<length sources. synthesized (sources ! i) (call i) (items ! i)"
      by (simp_all add: roaming_all)
    from syn have "\<forall>i<length sources.
             source (items ! i) = source_file (sources ! i) \<and>
             relevantText (items ! i) = content_chunk (sources ! i) \<and>
             truthy (Some (conclusion (items ! i))) \<and>
             (\<exists>reply v. snd (call i) = Inr reply \<and>
                JSON_parse (stripFenceMarks reply) = Some v \<and>
                getProp (Some v) (js ''conclusion'') = Inr (Some (conclusion (items ! i))))"
      unfolding synthesized_def by blast
    with ne Inr len show ?thesis by (simp add: handleStartRoaming_def)
  next
    case (Inl x)
    obtain t err where x: "x = (t, err)" by (cases x)
    from roaming_some_fails [OF Inl] obtain i where i: "i < length sources"
      and no: "\<forall>item. \<not> synthesized (sources ! i) (call i) item"
      by blast
    have "\<not> (\<exists>reply v c. snd (call i) = Inr reply \<and>
                  JSON_parse (stripFenceMarks reply) = Some v \<and>
                  getProp (Some v) (js ''conclusion'') = Inr (Some c) \<and> truthy (Some c))"
    proof
      assume "\<exists>reply v c. snd (call i) = Inr reply \<and>
                  JSON_parse (stripFenceMarks reply) = Some v \<and>
                  getProp (Some v) (js ''conclusion'') = Inr (Some c) \<and> truthy (Some c)"
      then obtain reply v c where "snd (call i) = Inr reply"
        and "JSON_parse (stripFenceMarks reply) = Some v"
        and "getProp (Some v) (js ''conclusion'') = Inr (Some c)" and "truthy (Some c)"
        by blast
      then have "synthesized (sources ! i) (call i)
          \<lparr>source = source_file (sources ! i), relevantText = content_chunk (sources ! i),
           conclusion = c\<rparr>"
        by (simp add: synthesized_def)
      with no show False by blast
    qed
    with i have "\<exists>i<length sources.
             \<not> (\<exists>reply v c. snd (call i) = Inr reply \<and>
                  JSON_parse (stripFenceMarks reply) = Some v \<and>
                  getProp (Some v) (js ''conclusion'') = Inr (Some c) \<and> truthy (Some c))"
      by blast
    with ne Inl x show ?thesis by (simp add: handleStartRoaming_def)
  qed
qed


text \<open>
  The theorem at three snippets. In the first run the three calls fulfil, the second reply
  in a fenced block, and the result lists the three conclusions in the order of the
  snippets although the calls settle in the opposite order. In the second run the third
  reply has an empty conclusion: there is no result, and the error is shown.
\<close>

theorem handleStartRoaming_all_or_nothing_witness:
  \<open>roamingResult
     (handleStartRoaming
        \<lparr>protocol = Some (js ''http:''), isProduction = False, VITE_API_BASE_URL = None\<rparr>
        [\<lparr>source_file = js ''a.md'', content_chunk = js ''alpha'', score = (9, - 1)\<rparr>,
         \<lparr>source_file = js ''b.md'', content_chunk = js ''beta'', score = (8, - 1)\<rparr>,
         \<lparr>source_file = js ''c.md'', content_chunk = js ''gamma'', score = (7, - 1)\<rparr>]
        (\<lambda>i. (3 - i,
              Inr (if i = 0 then js ''{"conclusion":"A"}''
                   else if i = 1 then js ''```json'' @ [10] @ js ''{"conclusion":"B"}'' @ [10] @ js ''```''
                   else js ''{"conclusion":"C"}'')))) =
     Some [\<lparr>source = js ''a.md'', relevantText = js ''alpha'', conclusion = JString (js ''A'')\<rparr>,
           \<lparr>source = js ''b.md'', relevantText = js ''beta'', conclusion = JString (js ''B'')\<rparr>,
           \<lparr>source = js ''c.md'', relevantText = js ''gamma'', conclusion = JString (js ''C'')\<rparr>] \<and>
   handleStartRoaming
     \<lparr>protocol = Some (js ''http:''), isProduction = False, VITE_API_BASE_URL = None\<rparr>
     [\<lparr>source_file = js ''a.md'', content_chunk = js ''alpha'', score = (9, - 1)\<rparr>,
      \<lparr>source_file = js ''b.md'', content_chunk = js ''beta'', score = (8, - 1)\<rparr>,
      \<lparr>source_file = js ''c.md'', content_chunk = js ''gamma'', score = (7, - 1)\<rparr>]
     (\<lambda>i. (i,
           Inr (if i = 0 then js ''{"conclusion":"A"}''
                else if i = 1 then js ''{"conclusion":"B"}''
                else js ''{"conclusion":""}''))) =
     \<lparr>roamingResult = None, roamingError = Some noConclusionMessage, isRoaming = False\<rparr>\<close>
proof -
  let ?page = "\<lparr>protocol = Some (js ''http:''), isProduction = False, VITE_API_BASE_URL = None\<rparr>"
  let ?sources =
    "[\<lparr>source_file = js ''a.md'', content_chunk = js ''alpha'', score = (9, - 1)\<rparr>,
      \<lparr>source_file = js ''b.md'', content_chunk = js ''beta'', score = (8, - 1)\<rparr>,
      \<lparr>source_file = js ''c.md'', content_chunk = js ''gamma'', score = (7, - 1)\<rparr>]"
  let ?good = \<open>\<lambda>i::nat. (3 - i,
      Inr (if i = 0 then js ''{"conclusion":"A"}''
           else if i = 1 then js ''```json'' @ [10] @ js ''{"conclusion":"B"}'' @ [10] @ js ''```''
           else js ''{"conclusion":"C"}'') :: jsError + jstring)\<close>
  let ?bad = \<open>\<lambda>i::nat. (i,
      Inr (if i = 0 then js ''{"conclusion":"A"}''
           else if i = 1 then js ''{"conclusion":"B"}''
           else js ''{"conclusion":""}'') :: jsError + jstring)\<close>
  have m: "getBackendErrorMessage ?page (Error noConclusionMessage) (API_BASE_URL ?page) =
      noConclusionMessage"
    by (simp add: getBackendErrorMessage_def noConclusionMessage_def js_def)
  have good: "handleStartRoaming ?page ?sources ?good =
      \<lparr>roamingResult =
         Some [\<lparr>source = js ''a.md'', relevantText = js ''alpha'', conclusion = JString (js ''A'')\<rparr>,
               \<lparr>source = js ''b.md'', relevantText = js ''beta'', conclusion = JString (js ''B'')\<rparr>,
               \<lparr>source = js ''c.md'', relevantText = js ''gamma'', conclusion = JString (js ''C'')\<rparr>],
       roamingError = None, isRoaming = False\<rparr>"
    by (simp add: handleStartRoaming_def roamingPromises_def enumerate_eq_zip upt_rec
        roamingItem_def bindE_def str_eval json_eval)
  have bad: "promiseAll (roamingPromises ?sources ?bad) = Inl (2, Error noConclusionMessage)"
    by (simp add: roamingPromises_def enumerate_eq_zip upt_rec
        roamingItem_def bindE_def str_eval json_eval)
  have bad': "handleStartRoaming ?page ?sources ?bad =
      \<lparr>roamingResult = None, roamingError = Some noConclusionMessage, isRoaming = False\<rparr>"
    by (simp add: handleStartRoaming_def bad m)
  show ?thesis
    using handleStartRoaming_all_or_nothing [of ?sources ?page ?good] good bad'
    by simp
qed

end
